theory Spec2Isabelle
  imports Complex_Main "HOL-Library.Word" "HOL-Library.Signed_Division"
begin

section \<open>p\_laszip: the parallel LAS/LAZ coordinator of \<^verbatim>\<open>src/laszip.cpp\<close>\<close>

text \<open>
  The development embeds the MPI block of \<^verbatim>\<open>main\<close> (lines 797 to 1011 of
  \<^verbatim>\<open>src/laszip.cpp\<close>): the partitioner, the sizing pass, the placement of the
  peers in the output file, the final pass and the assembly of the chunk table on the
  last rank.

  Integers. \<^verbatim>\<open>I64\<close> values (point indices, stream positions, byte counts) are
  modelled as \<^typ>\<open>int\<close>; C++ division and remainder truncate towards zero, which is
  \<open>sdiv\<close> and \<open>smod\<close>. The point indices the partitioner returns lie between 0
  and the number of points of the input (lemma \<open>partition_values_bounded\<close>), so no
  wrap-around occurs there. The write offset of a rank is a sum of byte counts, and its
  additions wrap around at \<open>2 ^ 63\<close> (\<open>i64\<close>). \<^verbatim>\<open>U32\<close> values (chunk
  counts and the per-chunk byte counts) are 32-bit words: their additions wrap around.
\<close>

type_synonym u32 = "32 word"

datatype error = DivisionByZero

subsection \<open>The partitioner (lines 807 to 858)\<close>

record point_range =
  point_start :: int
  point_end :: int

text \<open>
  Lines 823 to 831: the loop that fills \<^verbatim>\<open>all_process_chunks\<close>. The first argument
  counts the iterations that remain; the list holds the entries in index order.
\<close>

fun all_process_chunks_loop :: "nat \<Rightarrow> int \<Rightarrow> int \<Rightarrow> int list" where
  "all_process_chunks_loop 0 process_chunks left_over_chunks = []"
| "all_process_chunks_loop (Suc n) process_chunks left_over_chunks =
     (if left_over_chunks \<noteq> 0
      then (process_chunks + 1) # all_process_chunks_loop n process_chunks (left_over_chunks - 1)
      else process_chunks # all_process_chunks_loop n process_chunks left_over_chunks)"

text \<open>
  Lines 833 to 838: the loop that fills \<^verbatim>\<open>all_point_start\<close>, running over the
  entries of \<^verbatim>\<open>all_process_chunks\<close> with the accumulator \<^verbatim>\<open>cur_point_start\<close>.
\<close>

fun all_point_start_loop :: "int list \<Rightarrow> int \<Rightarrow> int \<Rightarrow> int list" where
  "all_point_start_loop [] chunk_size cur_point_start = []"
| "all_point_start_loop (c # cs) chunk_size cur_point_start =
     cur_point_start # all_point_start_loop cs chunk_size (cur_point_start + c * chunk_size)"

text \<open>Lines 817 to 831: the chunk count of every rank.\<close>

definition all_process_chunks :: "int \<Rightarrow> int \<Rightarrow> int \<Rightarrow> int list" where
  "all_process_chunks npoints chunk_size process_count =
     (let chunks = npoints sdiv chunk_size;
          process_chunks = chunks sdiv process_count;
          left_over_chunks = chunks smod process_count
      in all_process_chunks_loop (nat process_count) process_chunks left_over_chunks)"

text \<open>
  Lines 817 to 847, the LAS to LAZ branch. \<^verbatim>\<open>rank\<close> comes from
  \<^verbatim>\<open>MPI_Comm_rank\<close>, so it indexes both arrays within their bounds.
\<close>

definition las_to_laz_points :: "int \<Rightarrow> int \<Rightarrow> int \<Rightarrow> int \<Rightarrow> point_range" where
  "las_to_laz_points npoints chunk_size process_count rank =
     (let left_over_points = npoints smod chunk_size;
          chunks_of = all_process_chunks npoints chunk_size process_count;
          all_point_start = all_point_start_loop chunks_of chunk_size 0;
          process_points = chunks_of ! nat rank * chunk_size;
          start = all_point_start ! nat rank;
          end = start + process_points
      in \<lparr>point_start = start,
          point_end = (if rank = process_count - 1 then end + left_over_points else end)\<rparr>)"

text \<open>Lines 852 to 856, the LAZ to LAS branch.\<close>

definition laz_to_las_points :: "int \<Rightarrow> int \<Rightarrow> int \<Rightarrow> point_range" where
  "laz_to_las_points npoints process_count rank =
     (let left_over_points = npoints smod process_count;
          process_points = npoints sdiv process_count;
          start = rank * process_points;
          end = start + process_points
      in \<lparr>point_start = start,
          point_end = (if rank = process_count - 1 then end + left_over_points else end)\<rparr>)"

text \<open>
  A division by zero is the only way the two branches can stop: the source has no
  check and no error exit between lines 807 and 858.
\<close>

definition las_to_laz_range :: "int \<Rightarrow> int \<Rightarrow> int \<Rightarrow> int \<Rightarrow> error + point_range" where
  "las_to_laz_range npoints chunk_size process_count rank =
     (if chunk_size = 0 \<or> process_count = 0 then Inl DivisionByZero
      else Inr (las_to_laz_points npoints chunk_size process_count rank))"

definition laz_to_las_range :: "int \<Rightarrow> int \<Rightarrow> int \<Rightarrow> error + point_range" where
  "laz_to_las_range npoints process_count rank =
     (if process_count = 0 then Inl DivisionByZero
      else Inr (laz_to_las_points npoints process_count rank))"

text \<open>Line 813: \<^verbatim>\<open>lasreader->header.laszip == NULL\<close> selects the LAS to LAZ branch.\<close>

definition peer_range :: "bool \<Rightarrow> int \<Rightarrow> int \<Rightarrow> int \<Rightarrow> int \<Rightarrow> error + point_range" where
  "peer_range laszip npoints chunk_size process_count rank =
     (if \<not> laszip then las_to_laz_range npoints chunk_size process_count rank
      else laz_to_las_range npoints process_count rank)"

text \<open>The set of point indices of a range, and the closed form of the range boundaries.\<close>

definition range_set :: "point_range \<Rightarrow> int set" where
  "range_set rng = {point_start rng ..< point_end rng}"

definition boundary :: "int \<Rightarrow> int \<Rightarrow> int \<Rightarrow> int \<Rightarrow> int" where
  "boundary N C P r = (r * (N div C div P) + min r ((N div C) mod P)) * C"

subsection \<open>The collaborators: reader, writer and entropy coder\<close>

text \<open>
  \<^verbatim>\<open>LASreader\<close>, \<^verbatim>\<open>LASwriter\<close>, \<^verbatim>\<open>LASwritePoint\<close>, the byte streams and the
  arithmetic coder belong to the LASlib and LASzip libraries, whose sources are not part
  of \<^verbatim>\<open>src/\<close>. The coordinator reads and writes the fields below and makes the calls
  below; what the libraries do at each call is modelled from the spec (sections 3, 4.2,
  4.4 and 6), and the bytes the entropy coder produces are a parameter.
\<close>

type_synonym byte = "8 word"

datatype 'p call = WritePoint 'p | EncDone | AddChunkToTable | StreamSeek int | WriteChunkTable

record 'p laswriter =
  use_nil :: bool
  compress :: bool
  chunk_size_of :: int
  p_count :: int
  seek_pos :: int
  out :: "byte list"
  chunk_points :: "'p list"
  number_chunks :: u32
  chunk_bytes :: "u32 list"
  chunk_start_position :: int
  chunk_table_start_position :: int
  calls :: "'p call list"

text \<open>
  The fields: \<open>use_nil\<close> is the flag of \<^verbatim>\<open>laswriteopener.set_use_nil\<close> the writer
  was opened under; \<open>compress\<close> says that the writer produces LAZ; \<open>seek_pos\<close> is
  the stream position after the last seek and \<open>out\<close> the bytes sent to the stream
  since then; \<open>chunk_points\<close> are the points of the chunk that is open;
  \<open>calls\<close> lists the calls the coordinator made on the writer, oldest first. The
  other fields carry the names the source uses.
\<close>

record 'p encoder =
  point_bytes :: "'p laswriter \<Rightarrow> 'p \<Rightarrow> byte list"
  done_bytes :: "'p laswriter \<Rightarrow> byte list"
  table_bytes :: "'p laswriter \<Rightarrow> byte list"

text \<open>
  The entropy coder and the point codec are opaque: an \<open>encoder\<close> gives the bytes that
  reach the stream when a point is written, when the coder is closed
  (\<^verbatim>\<open>enc->done()\<close>) and when the chunk table is written, each as a function of the
  whole writer.
\<close>

record 'p lasreader =
  npoints :: int
  laszip :: bool
  points :: "'p list"

text \<open>
  Modelled from the spec: the reader (section 6). \<open>laszip\<close> says that the header
  carries a laszip descriptor (the input is LAZ); \<^verbatim>\<open>seek(point_index)\<close> positions
  the reader at that point, and \<^verbatim>\<open>read_point()\<close> yields the points from there on
  and is false at the end. The reader after a seek is the list of points it will yield.
\<close>

definition reader_seek :: "'p lasreader \<Rightarrow> int \<Rightarrow> 'p list" where
  "reader_seek rd p_index = drop (nat p_index) (points rd)"

text \<open>Modelled from the spec: \<^verbatim>\<open>get_stream()->tell()\<close>, the current stream position.\<close>

definition tell :: "'p laswriter \<Rightarrow> int" where
  "tell w = seek_pos w + int (length (out w))"

text \<open>
  Modelled from the spec: \<^verbatim>\<open>laswriteopener.open\<close> (sections 4.2 and 4.4). A fresh
  writer emits the header and the VLRs, so that its stream position is the end of the
  header, and seeds its chunk start position there. \<open>table_pos\<close> is the value the
  library gives \<^verbatim>\<open>chunk_table_start_position\<close>.
\<close>

definition open_writer :: "bool \<Rightarrow> bool \<Rightarrow> int \<Rightarrow> byte list \<Rightarrow> int \<Rightarrow> 'p laswriter" where
  "open_writer nil laz csize hdr table_pos =
     \<lparr>use_nil = nil, compress = laz, chunk_size_of = csize, p_count = 0,
      seek_pos = 0, out = hdr, chunk_points = [],
      number_chunks = 0, chunk_bytes = [],
      chunk_start_position = int (length hdr),
      chunk_table_start_position = table_pos, calls = []\<rparr>"

text \<open>
  Modelled from the spec: closing the entropy coder sends its last bytes to the stream;
  recording a chunk appends the byte count of the completed chunk to \<open>chunk_bytes\<close>,
  counts the chunk and starts the next chunk at the current position (section 6).
\<close>

definition coder_done :: "'p encoder \<Rightarrow> 'p laswriter \<Rightarrow> 'p laswriter" where
  "coder_done e w = w\<lparr>out := out w @ done_bytes e w\<rparr>"

definition table_entry :: "'p laswriter \<Rightarrow> 'p laswriter" where
  "table_entry w =
     w\<lparr>number_chunks := number_chunks w + 1,
       chunk_bytes := chunk_bytes w @ [word_of_int (tell w - chunk_start_position w)],
       chunk_start_position := tell w\<rparr>"

text \<open>
  The two calls the coordinator makes itself, \<^verbatim>\<open>get_writer()->enc->done()\<close> and
  \<^verbatim>\<open>get_writer()->add_chunk_to_table()\<close>.
\<close>

definition enc_done :: "'p encoder \<Rightarrow> 'p laswriter \<Rightarrow> 'p laswriter" where
  "enc_done e w = (coder_done e w)\<lparr>calls := calls w @ [EncDone]\<rparr>"

definition add_chunk_to_table :: "'p laswriter \<Rightarrow> 'p laswriter" where
  "add_chunk_to_table w = (table_entry w)\<lparr>calls := calls w @ [AddChunkToTable]\<rparr>"

text \<open>
  Modelled from the spec: \<^verbatim>\<open>write_point\<close> counts the point in \<^verbatim>\<open>p_count\<close> and
  chunks on boundaries of \<open>chunk_size\<close> points (section 6). A full chunk is closed when
  the next point arrives: the coordinator itself closes the chunk that is open at the end
  of a range, and a peer that owns one chunk of points produces one chunk (scenario S1 of
  section 8). A writer that does not compress has no chunks.
\<close>

definition write_point :: "'p encoder \<Rightarrow> 'p laswriter \<Rightarrow> 'p \<Rightarrow> 'p laswriter" where
  "write_point e w p =
     (let w1 = (if compress w \<and> int (length (chunk_points w)) = chunk_size_of w
                then (table_entry (coder_done e w))\<lparr>chunk_points := []\<rparr>
                else w)
      in w1\<lparr>p_count := p_count w1 + 1,
            chunk_points := chunk_points w1 @ [p],
            out := out w1 @ point_bytes e w1 p,
            calls := calls w1 @ [WritePoint p]\<rparr>)"

text \<open>Modelled from the spec: \<^verbatim>\<open>get_stream()->seek\<close>, an absolute seek.\<close>

definition stream_seek :: "'p laswriter \<Rightarrow> int \<Rightarrow> 'p laswriter" where
  "stream_seek w pos = w\<lparr>seek_pos := pos, out := [], calls := calls w @ [StreamSeek pos]\<rparr>"

text \<open>
  Modelled from the spec: \<^verbatim>\<open>write_chunk_table\<close> emits the table from the fields
  \<open>number_chunks\<close> and \<open>chunk_bytes\<close> of the writer.
\<close>

definition write_chunk_table :: "'p encoder \<Rightarrow> 'p laswriter \<Rightarrow> 'p laswriter" where
  "write_chunk_table e w = w\<lparr>out := out w @ table_bytes e w, calls := calls w @ [WriteChunkTable]\<rparr>"

subsection \<open>The two passes (lines 860 to 932)\<close>

record 'p job =
  lasreader :: "'p lasreader"
  chunk_size :: int
  process_count :: int
  header :: "byte list"
  table_pos :: int
  enc :: "'p encoder"
  heap :: "nat \<Rightarrow> u32"

text \<open>
  A job is what every process is started with: the input file, the chunk size of
  \<^verbatim>\<open>laswriteopener\<close>, the number of processes, the bytes of the header and the VLRs,
  the coder, and the contents of the memory that \<^verbatim>\<open>malloc\<close> hands out.

  Lines 865 to 872 and 918 to 925: the loop over the points. The list is what the reader
  still yields; \<open>n\<close> is \<^verbatim>\<open>point_end - point_start\<close>. The test comes after the
  write, as in the source.
\<close>

fun encode_loop :: "'p encoder \<Rightarrow> 'p list \<Rightarrow> 'p laswriter \<Rightarrow> int \<Rightarrow> 'p laswriter" where
  "encode_loop e [] w n = w"
| "encode_loop e (p # ps) w n =
     (let w' = write_point e w p
      in if p_count w' = n then w' else encode_loop e ps w' n)"

text \<open>
  The points the loop writes on a writer that starts with \<open>p_count = 0\<close>: the first
  \<open>n\<close> points the reader yields when \<open>n\<close> is positive, and all of them otherwise,
  since the test \<^verbatim>\<open>p_count == point_end - point_start\<close> is made after a write only.
\<close>

definition loop_points :: "'p list \<Rightarrow> int \<Rightarrow> 'p list" where
  "loop_points ps n = (if 0 < n then take (nat n) ps else ps)"

definition written_points :: "'p job \<Rightarrow> point_range \<Rightarrow> 'p list" where
  "written_points job rng =
     loop_points (reader_seek (lasreader job) (point_start rng)) (point_end rng - point_start rng)"

text \<open>
  Lines 860 to 882: the sizing pass, on the nil writer opened at lines 587 and 588. It
  returns the writer and \<^verbatim>\<open>point_bytes_written\<close>.
\<close>

definition sizing_pass :: "'p job \<Rightarrow> point_range \<Rightarrow> 'p laswriter \<times> int" where
  "sizing_pass job rng =
     (let rd = lasreader job;
          w0 = open_writer True (\<not> laszip rd) (chunk_size job) (header job) (table_pos job);
          point_start_offset = tell w0;
          w1 = encode_loop (enc job) (reader_seek rd (point_start rng)) w0
                 (point_end rng - point_start rng);
          w2 = (if \<not> laszip rd then add_chunk_to_table (enc_done (enc job) w1) else w1);
          point_end_offset = tell w2
      in (w2, point_end_offset - point_start_offset))"

text \<open>
  The value that an addition of two \<^verbatim>\<open>I64\<close> leaves in an \<^verbatim>\<open>I64\<close>, for the
  exact sum \<open>x\<close>: the sum wraps around at \<open>2 ^ 63\<close>.
\<close>

definition i64 :: "int \<Rightarrow> int" where
  "i64 x = (x + 2 ^ 63) mod 2 ^ 64 - 2 ^ 63"

text \<open>
  Line 905: the stream position of a writer just opened on the output file, which is the
  end of the header and the VLRs. Lines 905 to 909: the write offset of a rank, the
  \<^verbatim>\<open>I64\<close> that the loop adds the counts of the lower ranks to, one by one.
\<close>

definition write_point_offset :: "int \<Rightarrow> int list \<Rightarrow> int \<Rightarrow> int" where
  "write_point_offset header_end all_point_bytes_written rank =
     fold (\<lambda>i off. i64 (off + all_point_bytes_written ! i)) [0..<nat rank] header_end"

definition header_end :: "'p job \<Rightarrow> int" where
  "header_end job =
     tell (open_writer False (\<not> laszip (lasreader job)) (chunk_size job) (header job)
             (table_pos job) :: 'p laswriter)"

text \<open>
  Lines 898 to 931: the final pass, on a writer opened on the output file. It returns the
  writer and \<^verbatim>\<open>write_point_offset\<close>.
\<close>

definition final_pass :: "'p job \<Rightarrow> point_range \<Rightarrow> int list \<Rightarrow> int \<Rightarrow> 'p laswriter \<times> int" where
  "final_pass job rng all_point_bytes_written rank =
     (let rd = lasreader job;
          w0 = open_writer False (\<not> laszip rd) (chunk_size job) (header job) (table_pos job);
          off = write_point_offset (tell w0) all_point_bytes_written rank;
          w1 = stream_seek w0 off;
          w2 = (if \<not> laszip rd then w1\<lparr>chunk_start_position := tell w1\<rparr> else w1);
          w3 = encode_loop (enc job) (reader_seek rd (point_start rng)) w2
                 (point_end rng - point_start rng);
          w4 = (if \<not> laszip rd then add_chunk_to_table (enc_done (enc job) w3) else w3)
      in (w4, off))"

subsection \<open>The chunk table (lines 934 to 1010)\<close>

text \<open>
  Lines 941 to 948: the total, a \<^verbatim>\<open>U32\<close>. Lines 955 to 961: the offsets, the
  \<^verbatim>\<open>U32\<close> running sums of the gathered counts.
\<close>

definition number_chunks_total :: "u32 list \<Rightarrow> u32" where
  "number_chunks_total number_chunks_arr =
     fold (\<lambda>i total. total + number_chunks_arr ! i) [0..<length number_chunks_arr] 0"

fun number_chunks_offsets_loop :: "u32 list \<Rightarrow> u32 \<Rightarrow> u32 list" where
  "number_chunks_offsets_loop [] current_offset = []"
| "number_chunks_offsets_loop (c # cs) current_offset =
     current_offset # number_chunks_offsets_loop cs (current_offset + c)"

text \<open>
  Line 953: the message a rank sends, the first \<open>number_chunks\<close> entries of its
  \<open>chunk_bytes\<close>. Line 969: a receive stores a message in the block from an offset on.
  The block of line 950 is an array without bounds: a message that does not fit the
  \<open>number_chunks_total\<close> entries allotted overruns the block in the source, which the
  model does not detect.
\<close>

definition chunk_bytes_message :: "'p laswriter \<Rightarrow> u32 list" where
  "chunk_bytes_message w = take (unat (number_chunks w)) (chunk_bytes w)"

definition recv_into :: "(nat \<Rightarrow> u32) \<Rightarrow> nat \<Rightarrow> u32 list \<Rightarrow> (nat \<Rightarrow> u32)" where
  "recv_into block off msg =
     (\<lambda>j. if off \<le> j \<and> j < off + length msg then msg ! (j - off) else block j)"

text \<open>
  Lines 939 to 1009 on rank \<open>process_count - 1\<close>, given the writers of all ranks after
  the final pass, in rank order: the gather of line 940, the receives of lines 964 to 972,
  the position sent by rank 0 (lines 977 to 981) and the assignments and the call of lines
  1003 to 1007.
\<close>

definition chunk_table_block :: "(nat \<Rightarrow> u32) \<Rightarrow> 'p laswriter list \<Rightarrow> (nat \<Rightarrow> u32)" where
  "chunk_table_block block ws =
     (let number_chunks_arr = map number_chunks ws;
          number_chunks_offsets = number_chunks_offsets_loop number_chunks_arr 0
      in fold (\<lambda>i b. recv_into b (unat (number_chunks_offsets ! i)) (chunk_bytes_message (ws ! i)))
           [0..<length ws] block)"

definition table_phase :: "(nat \<Rightarrow> u32) \<Rightarrow> 'p encoder \<Rightarrow> 'p laswriter list \<Rightarrow> 'p laswriter" where
  "table_phase block e ws =
     (let total = number_chunks_total (map number_chunks ws);
          block' = chunk_table_block block ws;
          position = chunk_table_start_position (ws ! 0);
          w = last ws
      in write_chunk_table e
           (w\<lparr>chunk_table_start_position := position,
              number_chunks := total,
              chunk_bytes := map block' [0..<unat total]\<rparr>))"

subsection \<open>The cohort\<close>

datatype mpi_call = Barrier | Allgather | Gather int | Send int int | Recv int int

text \<open>
  The MPI calls of a rank between lines 873 and 982, in program order. \<open>Gather root\<close>,
  \<open>Send dest tag\<close>, \<open>Recv source tag\<close>.
\<close>

definition mpi_calls :: "bool \<Rightarrow> int \<Rightarrow> int \<Rightarrow> mpi_call list" where
  "mpi_calls laz_input nprocs rank =
     [Barrier, Barrier, Barrier, Barrier, Allgather, Barrier, Barrier, Barrier, Barrier] @
     (if \<not> laz_input then
        [Gather (nprocs - 1), Send (nprocs - 1) 2] @
        (if rank = nprocs - 1 then map (\<lambda>i. Recv (int i) 2) [0..<nat nprocs] else []) @
        [Barrier] @
        (if rank = 0 then [Send (nprocs - 1) 3] else []) @
        (if rank = nprocs - 1 then [Recv 0 3] else []) @
        [Barrier]
      else [])"

record 'p peer =
  peer_points :: point_range
  sizing_writer :: "'p laswriter"
  point_bytes_written :: int
  final_writer :: "'p laswriter"
  write_offset :: int
  peer_mpi :: "mpi_call list"

record 'p outcome =
  peers :: "'p peer list"
  table_writer :: "'p laswriter option"

fun collect :: "('e + 'a) list \<Rightarrow> 'e + 'a list" where
  "collect [] = Inr []"
| "collect (x # xs) =
     (case x of Inl e \<Rightarrow> Inl e
      | Inr a \<Rightarrow> (case collect xs of Inl e \<Rightarrow> Inl e | Inr as \<Rightarrow> Inr (a # as)))"

text \<open>
  The run of all ranks on their ranges. \<^verbatim>\<open>MPI_Allgather\<close> (line 890) gives every
  rank the sizing counts of all ranks in rank order. The chunk table is written on the
  last rank and in the LAS to LAZ direction only (lines 934 and 1001).
\<close>

definition cohort :: "'p job \<Rightarrow> point_range list \<Rightarrow> 'p outcome" where
  "cohort job ranges =
     (let rd = lasreader job;
          all_point_bytes_written = map (\<lambda>rng. snd (sizing_pass job rng)) ranges;
          ps = map (\<lambda>r. \<lparr>peer_points = ranges ! r,
                          sizing_writer = fst (sizing_pass job (ranges ! r)),
                          point_bytes_written = all_point_bytes_written ! r,
                          final_writer = fst (final_pass job (ranges ! r) all_point_bytes_written (int r)),
                          write_offset = snd (final_pass job (ranges ! r) all_point_bytes_written (int r)),
                          peer_mpi = mpi_calls (laszip rd) (process_count job) (int r)\<rparr>)
                 [0..<length ranges]
      in \<lparr>peers = ps,
          table_writer = (if \<not> laszip rd \<and> ranges \<noteq> []
                          then Some (table_phase (heap job) (enc job) (map final_writer ps))
                          else None)\<rparr>)"

text \<open>
  The whole run: every rank computes its range (lines 807 to 858), and the cohort runs
  on the ranges.
\<close>

definition p_laszip :: "'p job \<Rightarrow> error + 'p outcome" where
  "p_laszip job =
     (let rd = lasreader job
      in case collect (map (\<lambda>r. peer_range (laszip rd) (npoints rd) (chunk_size job)
                                  (process_count job) (int r))
                         [0..<nat (process_count job)]) of
           Inl e \<Rightarrow> Inl e
         | Inr ranges \<Rightarrow> Inr (cohort job ranges))"

text \<open>The bytes of the output file that the placement gives a rank.\<close>

definition byte_interval :: "'p peer \<Rightarrow> int set" where
  "byte_interval pr = {write_offset pr ..< write_offset pr + point_bytes_written pr}"

text \<open>
  A writer keeps count of its chunks when \<open>number_chunks\<close> is the number of entries of
  \<open>chunk_bytes\<close>, as a \<^verbatim>\<open>U32\<close>.
\<close>

definition counted :: "'p laswriter \<Rightarrow> bool" where
  "counted w \<longleftrightarrow> number_chunks w = of_nat (length (chunk_bytes w))"

subsection \<open>Serial equivalence: the coder, the file and the serial reference\<close>

text \<open>
  Modelled from the spec: what sections 1, 3 and 4.2 say of the entropy coder, whose
  source is not part of \<^verbatim>\<open>src/\<close>. Every chunk is an independent coder stream and
  the bytes are determined by the points and the chunk boundaries: the bytes sent for a
  point and at the close of the coder depend on the points of the open chunk only, and
  the bytes of the chunk table on the chunk count and the byte counts only.
\<close>

definition chunk_coder :: "'p encoder \<Rightarrow> bool" where
  "chunk_coder e \<longleftrightarrow>
     (\<forall>w v p. chunk_points w = chunk_points v \<longrightarrow> point_bytes e w p = point_bytes e v p)
   \<and> (\<forall>w v. chunk_points w = chunk_points v \<longrightarrow> done_bytes e w = done_bytes e v)
   \<and> (\<forall>w v. number_chunks w = number_chunks v \<and> chunk_bytes w = chunk_bytes v \<longrightarrow>
              table_bytes e w = table_bytes e v)"

text \<open>The close of the open chunk: the coder is closed and the chunk is recorded.\<close>

definition close_chunk :: "'p encoder \<Rightarrow> 'p laswriter \<Rightarrow> 'p laswriter" where
  "close_chunk e w = table_entry (coder_done e w)"

text \<open>
  Two notions for comparing writers. \<open>grows w w' bs cs\<close>: the writer \<open>w'\<close> is \<open>w\<close>
  after the bytes \<open>bs\<close> were sent to the stream and the entries \<open>cs\<close> were appended
  to the chunk table. \<open>aligned w v\<close>: the two writers hold the same open chunk at the
  same distance from its start.
\<close>

definition grows :: "'p laswriter \<Rightarrow> 'p laswriter \<Rightarrow> byte list \<Rightarrow> u32 list \<Rightarrow> bool" where
  "grows w w' bs cs \<longleftrightarrow>
     out w' = out w @ bs \<and> chunk_bytes w' = chunk_bytes w @ cs
   \<and> number_chunks w' = number_chunks w + of_nat (length cs)
   \<and> seek_pos w' = seek_pos w \<and> compress w' = compress w
   \<and> chunk_size_of w' = chunk_size_of w
   \<and> chunk_table_start_position w' = chunk_table_start_position w"

definition aligned :: "'p laswriter \<Rightarrow> 'p laswriter \<Rightarrow> bool" where
  "aligned w v \<longleftrightarrow>
     compress w = compress v \<and> chunk_size_of w = chunk_size_of v
   \<and> chunk_points w = chunk_points v
   \<and> tell w - chunk_start_position w = tell v - chunk_start_position v"

text \<open>
  The bytes and the table entries of a segment: what a writer at the start of a chunk
  sends and records when the points are written and the open chunk is closed.
\<close>

definition fresh_writer :: "int \<Rightarrow> 'p laswriter" where
  "fresh_writer C = open_writer False True C [] 0"

definition segment_out :: "'p encoder \<Rightarrow> int \<Rightarrow> 'p list \<Rightarrow> byte list" where
  "segment_out e C seg = out (close_chunk e (foldl (write_point e) (fresh_writer C) seg))"

definition segment_chunk_bytes :: "'p encoder \<Rightarrow> int \<Rightarrow> 'p list \<Rightarrow> u32 list" where
  "segment_chunk_bytes e C seg =
     chunk_bytes (close_chunk e (foldl (write_point e) (fresh_writer C) seg))"

definition at_chunk_start :: "int \<Rightarrow> 'p laswriter \<Rightarrow> bool" where
  "at_chunk_start C w \<longleftrightarrow>
     compress w \<and> chunk_size_of w = C \<and> chunk_points w = [] \<and> chunk_start_position w = tell w"

text \<open>
  The boundaries of the ranges in the LAS to LAZ direction, and the inputs on which no
  range is empty: at least as many whole chunks as ranks, or one chunk less and trailing
  points for the last rank.
\<close>

definition range_boundary :: "int \<Rightarrow> int \<Rightarrow> int \<Rightarrow> int \<Rightarrow> int" where
  "range_boundary N C P r = (if r = P then N else boundary N C P r)"

definition ranges_not_empty :: "int \<Rightarrow> int \<Rightarrow> int \<Rightarrow> bool" where
  "ranges_not_empty N C P \<longleftrightarrow> P \<le> N div C \<or> (N div C = P - 1 \<and> 0 < N mod C)"

text \<open>
  Modelled from the spec: the output file (section 5, shared resources). A write puts
  bytes at an absolute offset; a gap is filled with zero bytes. The file of a run is the
  header with the bytes of the final writers at their seek positions, in rank order, and
  then the bytes of the writer of the chunk table. The eight bytes of the header that
  point to the chunk table are left out of the model on both sides of the comparison.
\<close>

definition pwrite :: "byte list \<Rightarrow> int \<Rightarrow> byte list \<Rightarrow> byte list" where
  "pwrite f off bs =
     (let n = nat off; g = f @ replicate (n - length f) 0
      in take n g @ bs @ drop (n + length bs) g)"

definition output_file :: "'p job \<Rightarrow> 'p outcome \<Rightarrow> byte list" where
  "output_file job res =
     (let f = fold (\<lambda>pr f. pwrite f (seek_pos (final_writer pr)) (out (final_writer pr)))
                (peers res) (header job)
      in case table_writer res of None \<Rightarrow> f | Some T \<Rightarrow> pwrite f (seek_pos T) (out T))"

text \<open>
  Modelled from the spec: the serial reference encoder (section 8, law 7, and the
  glossary entry LAZ). One writer on the output file writes the header, all the points
  in order with chunks of \<open>chunk_size\<close> points, closes the last chunk and appends the
  chunk table.
\<close>

definition serial_reference :: "'p job \<Rightarrow> 'p laswriter" where
  "serial_reference job =
     (let e = enc job;
          w0 = open_writer False True (chunk_size job) (header job) (table_pos job);
          w1 = foldl (write_point e) w0 (points (lasreader job));
          w2 = (if chunk_points w1 = [] then w1 else close_chunk e w1)
      in write_chunk_table e w2)"

text \<open>The bytes and the table entries of the segments of a list of ranges.\<close>

definition segment_outs :: "'p job \<Rightarrow> point_range list \<Rightarrow> byte list list" where
  "segment_outs job ranges =
     map (\<lambda>g. segment_out (enc job) (chunk_size job) (written_points job g)) ranges"

definition segment_tables :: "'p job \<Rightarrow> point_range list \<Rightarrow> u32 list list" where
  "segment_tables job ranges =
     map (\<lambda>g. segment_chunk_bytes (enc job) (chunk_size job) (written_points job g)) ranges"

subsection \<open>Small jobs to run the model on\<close>

text \<open>
  A coder that sends as many zero bytes to the stream as the value of the point, one byte
  when it is closed and four bytes per chunk for the table; and a coder that sends one
  byte per point to the nil stream and two bytes per point to the output file.
\<close>

definition example_encoder :: "nat encoder" where
  "example_encoder =
     \<lparr>point_bytes = (\<lambda>w p. replicate p 0),
      done_bytes = (\<lambda>w. [0]),
      table_bytes = (\<lambda>w. replicate (4 * length (chunk_bytes w)) 0)\<rparr>"

definition unstable_encoder :: "nat encoder" where
  "unstable_encoder =
     \<lparr>point_bytes = (\<lambda>w p. if use_nil w then [0] else [0, 0]),
      done_bytes = (\<lambda>w. []),
      table_bytes = (\<lambda>w. [])\<rparr>"

definition example_job :: "nat encoder \<Rightarrow> bool \<Rightarrow> int \<Rightarrow> int \<Rightarrow> nat list \<Rightarrow> nat job" where
  "example_job e laz csize nprocs pts =
     \<lparr>lasreader = \<lparr>npoints = int (length pts), laszip = laz, points = pts\<rparr>,
      chunk_size = csize, process_count = nprocs,
      header = replicate 10 0, table_pos = 2, enc = e, heap = (\<lambda>_. 0)\<rparr>"

section \<open>Properties\<close>

subsection \<open>Facts about the partitioner\<close>

lemma sdiv_nonneg: "0 \<le> a \<Longrightarrow> 0 < b \<Longrightarrow> a sdiv b = a div (b::int)"
  by (simp add: signed_divide_int_def sgn_if)

lemma smod_nonneg: "0 \<le> a \<Longrightarrow> 0 < b \<Longrightarrow> a smod b = a mod (b::int)"
  by (simp add: signed_modulo_int_def sgn_if)

lemma length_all_process_chunks_loop [simp]:
  "length (all_process_chunks_loop n pc lo) = n"
  by (induction n arbitrary: lo) auto

lemma nth_all_process_chunks_loop:
  "0 \<le> lo \<Longrightarrow> i < n \<Longrightarrow>
   all_process_chunks_loop n pc lo ! i = (if int i < lo then pc + 1 else pc)"
proof (induction n arbitrary: lo i)
  case 0
  then show ?case by simp
next
  case (Suc n)
  show ?case
  proof (cases i)
    case 0
    with Suc.prems show ?thesis by auto
  next
    case (Suc j)
    with Suc.prems have j: "j < n" by simp
    show ?thesis
    proof (cases "lo = 0")
      case True
      with Suc.IH [of 0 j] j Suc show ?thesis by simp
    next
      case False
      with Suc.prems have "0 \<le> lo - 1" by simp
      from Suc.IH [OF this j] False Suc show ?thesis by auto
    qed
  qed
qed

lemma length_all_point_start_loop [simp]:
  "length (all_point_start_loop cs C cur) = length cs"
  by (induction cs arbitrary: cur) auto

lemma nth_all_point_start_loop:
  "i < length cs \<Longrightarrow> all_point_start_loop cs C cur ! i = cur + sum_list (take i cs) * C"
proof (induction cs arbitrary: cur i)
  case Nil
  then show ?case by simp
next
  case (Cons c cs)
  show ?case
  proof (cases i)
    case 0
    then show ?thesis by simp
  next
    case (Suc j)
    with Cons.prems have "j < length cs" by simp
    from Cons.IH [OF this] Suc show ?thesis by (simp add: algebra_simps)
  qed
qed

lemma length_all_process_chunks [simp]:
  "length (all_process_chunks N C P) = nat P"
  by (simp add: all_process_chunks_def Let_def)

lemma nth_all_process_chunks:
  assumes "0 \<le> N" "0 < C" "0 < P" "i < nat P"
  shows "all_process_chunks N C P ! i =
           (if int i < (N div C) mod P then N div C div P + 1 else N div C div P)"
proof -
  have K: "0 \<le> N div C" using assms by (simp add: pos_imp_zdiv_nonneg_iff)
  have lo: "0 \<le> (N div C) mod P" using assms by simp
  show ?thesis
    using assms K nth_all_process_chunks_loop [OF lo, of i "nat P" "N div C div P"]
    by (simp add: all_process_chunks_def Let_def sdiv_nonneg smod_nonneg)
qed



lemma sum_take_all_process_chunks_loop:
  "0 \<le> lo \<Longrightarrow> i \<le> n \<Longrightarrow>
   sum_list (take i (all_process_chunks_loop n pc lo)) = int i * pc + min (int i) lo"
proof (induction n arbitrary: lo i)
  case 0
  then show ?case by simp
next
  case (Suc n)
  show ?case
  proof (cases i)
    case 0
    with Suc.prems show ?thesis by simp
  next
    case (Suc j)
    with Suc.prems have j: "j \<le> n" by simp
    show ?thesis
    proof (cases "lo = 0")
      case True
      with Suc.IH [of 0 j] j Suc show ?thesis by (simp add: algebra_simps)
    next
      case False
      with Suc.prems have "0 \<le> lo - 1" by simp
      from Suc.IH [OF this j] False Suc Suc.prems show ?thesis by (simp add: algebra_simps min_def)
    qed
  qed
qed

lemma sum_take_all_process_chunks:
  assumes "0 \<le> N" "0 < C" "0 < P" "i \<le> nat P"
  shows "sum_list (take i (all_process_chunks N C P)) =
           int i * (N div C div P) + min (int i) ((N div C) mod P)"
proof -
  have K: "0 \<le> N div C" using assms by (simp add: pos_imp_zdiv_nonneg_iff)
  have lo: "0 \<le> (N div C) mod P" using assms by simp
  show ?thesis
    using assms K sum_take_all_process_chunks_loop [OF lo, of i "nat P" "N div C div P"]
    by (simp add: all_process_chunks_def Let_def sdiv_nonneg smod_nonneg)
qed

lemma las_to_laz_points_closed:
  assumes "0 \<le> N" "0 < C" "0 < P" "0 \<le> r" "r < P"
  shows "las_to_laz_points N C P r =
           \<lparr>point_start = boundary N C P r,
            point_end = boundary N C P (r + 1) + (if r = P - 1 then N mod C else 0)\<rparr>"
proof -
  have i: "nat r < nat P" "nat r \<le> nat P" using assms by simp_all
  have s: "sum_list (take (nat r) (all_process_chunks N C P)) =
             r * (N div C div P) + min r ((N div C) mod P)"
    using sum_take_all_process_chunks [OF assms(1-3) i(2)] assms by simp
  have c: "all_process_chunks N C P ! nat r =
             (if r < (N div C) mod P then N div C div P + 1 else N div C div P)"
    using nth_all_process_chunks [OF assms(1-3) i(1)] assms by simp
  have st: "all_point_start_loop (all_process_chunks N C P) C 0 ! nat r = boundary N C P r"
    using nth_all_point_start_loop [of "nat r" "all_process_chunks N C P" C 0] i s
    by (simp add: boundary_def)
  have e: "boundary N C P r + all_process_chunks N C P ! nat r * C = boundary N C P (r + 1)"
    unfolding c boundary_def by (simp add: algebra_simps min_def)
  show ?thesis
    using st e assms by (auto simp: las_to_laz_points_def Let_def smod_nonneg)
qed

lemma boundary_0: "0 \<le> N \<Longrightarrow> 0 < C \<Longrightarrow> 0 < P \<Longrightarrow> boundary N C P 0 = 0"
  by (simp add: boundary_def)

lemma boundary_P: 
  assumes "0 \<le> N" "0 < C" "0 < P" shows "boundary N C P P + N mod C = N"
proof -
  have "(N div C) mod P < P" using assms by simp
  then have "min P ((N div C) mod P) = (N div C) mod P" by simp
  then have "boundary N C P P = (N div C) * C"
    by (simp add: boundary_def)
  then show ?thesis by simp
qed

lemma boundary_mono:
  assumes "0 \<le> N" "0 < C" "0 < P" "r \<le> s"
  shows "boundary N C P r \<le> boundary N C P s"
proof -
  have K: "0 \<le> N div C" using assms by (simp add: pos_imp_zdiv_nonneg_iff)
  then have q: "0 \<le> N div C div P" using assms by (simp add: pos_imp_zdiv_nonneg_iff)
  have "r * (N div C div P) \<le> s * (N div C div P)"
    using assms(4) q by (rule mult_right_mono)
  moreover have "min r ((N div C) mod P) \<le> min s ((N div C) mod P)"
    using assms(4) by simp
  ultimately have "r * (N div C div P) + min r ((N div C) mod P)
                 \<le> s * (N div C div P) + min s ((N div C) mod P)" by simp
  then show ?thesis unfolding boundary_def using assms(2) by (simp add: mult_right_mono)
qed



lemma ceiling_floor_deal:
  assumes "0 < (P::int)" "0 \<le> r"
  shows "(if r < K mod P then \<lceil>real_of_int K / real_of_int P\<rceil> else \<lfloor>real_of_int K / real_of_int P\<rfloor>)
       = (if r < K mod P then K div P + 1 else K div P)"
proof (cases "K mod P = 0")
  case True
  then have "P dvd K" by (simp add: dvd_eq_mod_eq_0)
  with True assms show ?thesis
    by (auto simp: ceiling_divide_eq_div floor_divide_of_int_eq zdiv_zminus1_eq_if)
next
  case False
  with assms show ?thesis
    by (simp add: ceiling_divide_eq_div floor_divide_of_int_eq zdiv_zminus1_eq_if)
qed

text \<open>
  Claim C1. In the LAS to LAZ direction, with \<open>K = N div C\<close> whole chunks, the rank
  \<open>r\<close> receives the ceiling of \<open>K / P\<close> chunks when \<open>r < K mod P\<close> and the floor
  otherwise; its \<open>point_start\<close> is \<open>C\<close> times the sum of the chunk counts of the
  ranks before it, and its \<open>point_end\<close> is \<open>point_start\<close> plus \<open>C\<close> times its own
  chunk count, plus the \<open>N mod C\<close> trailing points on the last rank.
\<close>

theorem las_to_laz_deal_chunks:
  assumes "0 \<le> N" "0 < C" "0 < P" "0 \<le> r" "r < P"
  shows "all_process_chunks N C P ! nat r =
           (if r < (N div C) mod P then \<lceil>real_of_int (N div C) / real_of_int P\<rceil>
            else \<lfloor>real_of_int (N div C) / real_of_int P\<rfloor>)
       \<and> las_to_laz_range N C P r =
           Inr \<lparr>point_start = sum_list (take (nat r) (all_process_chunks N C P)) * C,
                point_end = sum_list (take (nat r) (all_process_chunks N C P)) * C
                          + all_process_chunks N C P ! nat r * C
                          + (if r = P - 1 then N mod C else 0)\<rparr>"
proof -
  have i: "nat r < nat P" using assms by simp
  have c: "all_process_chunks N C P ! nat r =
             (if r < (N div C) mod P then N div C div P + 1 else N div C div P)"
    using nth_all_process_chunks [OF assms(1-3) i] assms by simp
  have st: "all_point_start_loop (all_process_chunks N C P) C 0 ! nat r =
              sum_list (take (nat r) (all_process_chunks N C P)) * C"
    using nth_all_point_start_loop [of "nat r" "all_process_chunks N C P" C 0] i by simp
  have "las_to_laz_range N C P r = Inr (las_to_laz_points N C P r)"
    using assms by (simp add: las_to_laz_range_def)
  moreover have "las_to_laz_points N C P r =
           \<lparr>point_start = sum_list (take (nat r) (all_process_chunks N C P)) * C,
            point_end = sum_list (take (nat r) (all_process_chunks N C P)) * C
                          + all_process_chunks N C P ! nat r * C
                          + (if r = P - 1 then N mod C else 0)\<rparr>"
    using st assms by (auto simp: las_to_laz_points_def Let_def smod_nonneg)
  ultimately show ?thesis
    using c ceiling_floor_deal [OF assms(3,4), of "N div C"] by simp
qed

text \<open>Scenario S4 of the spec: 250000 points, chunks of 50000, 3 ranks; rank 0.\<close>

theorem las_to_laz_deal_chunks_witness:
  "all_process_chunks 250000 50000 3 ! nat 0 = 2
   \<and> las_to_laz_range 250000 50000 3 0 = Inr \<lparr>point_start = 0, point_end = 100000\<rparr>"
  using las_to_laz_deal_chunks [of 250000 50000 3 0] by simp

text \<open>
  Claim C8. In the LAZ to LAS direction the rank \<open>r\<close> starts at \<open>r * (N div P)\<close> and
  owns \<open>N div P\<close> points; the last rank owns the \<open>N mod P\<close> leftover points as well.
\<close>

theorem laz_to_las_equal_split:
  assumes "0 \<le> N" "0 < P" "0 \<le> r" "r < P"
  shows "laz_to_las_range N P r =
           Inr \<lparr>point_start = r * (N div P),
                point_end = r * (N div P) + N div P + (if r = P - 1 then N mod P else 0)\<rparr>"
  using assms
  by (simp add: laz_to_las_range_def laz_to_las_points_def Let_def sdiv_nonneg smod_nonneg)

theorem laz_to_las_equal_split_witness:
  "laz_to_las_range 10 3 2 = Inr \<lparr>point_start = 6, point_end = 10\<rparr>"
  using laz_to_las_equal_split [of 10 3 2] by simp

text \<open>
  Claim C6 says that the partitioner fails when there are fewer whole chunks than ranks.
  Scenario S3 of the spec (100000 points, chunks of 50000, 3 ranks) has 2 chunks for 3
  ranks, and the partitioner returns a range on every rank.
\<close>

theorem insufficient_chunks_not_reported:
  "(100000::int) div 50000 < 3
   \<and> las_to_laz_range 100000 50000 3 0 = Inr \<lparr>point_start = 0, point_end = 50000\<rparr>
   \<and> las_to_laz_range 100000 50000 3 1 = Inr \<lparr>point_start = 50000, point_end = 100000\<rparr>
   \<and> las_to_laz_range 100000 50000 3 2 = Inr \<lparr>point_start = 100000, point_end = 100000\<rparr>"
  by code_simp

text \<open>
  Claim C6, amended. With fewer whole chunks than ranks, \<open>K < P\<close>, the partitioner
  returns a range on every rank: the ranks below \<open>K\<close> own one chunk each, the ranks
  from \<open>K\<close> on own no chunk, and the last rank owns the trailing points.
\<close>

theorem las_to_laz_few_chunks:
  assumes "0 \<le> N" "0 < C" "0 < P" "0 \<le> r" "r < P" "N div C < P"
  shows "las_to_laz_range N C P r =
           Inr \<lparr>point_start = min r (N div C) * C,
                point_end = min (r + 1) (N div C) * C + (if r = P - 1 then N mod C else 0)\<rparr>"
proof -
  have K: "0 \<le> N div C" using assms by (simp add: pos_imp_zdiv_nonneg_iff)
  with assms have q: "N div C div P = 0" and m: "(N div C) mod P = N div C" by simp_all
  show ?thesis
    using assms las_to_laz_points_closed [OF assms(1-5)]
    by (simp add: las_to_laz_range_def boundary_def q m)
qed

theorem las_to_laz_few_chunks_witness:
  "las_to_laz_range 100001 50000 4 2 = Inr \<lparr>point_start = 100000, point_end = 100000\<rparr>
   \<and> las_to_laz_range 100001 50000 4 3 = Inr \<lparr>point_start = 100000, point_end = 100001\<rparr>"
  using las_to_laz_few_chunks [of 100001 50000 4 2] las_to_laz_few_chunks [of 100001 50000 4 3]
  by simp


lemma tile_sum: "(\<Sum>r = 0..<n. b (int r + 1) - b (int r)) = b (int n) - (b 0 :: int)"
  by (induction n) (simp_all add: add.commute)

lemma tile_union:
  assumes mono: "\<And>r s. 0 \<le> r \<Longrightarrow> r \<le> s \<Longrightarrow> s \<le> P \<Longrightarrow> b r \<le> (b s :: int)"
    and n: "int n \<le> P"
  shows "(\<Union>r\<in>{0..<int n}. {b r..<b (r + 1)}) = {b 0..<b (int n)}"
  using n
proof (induction n)
  case 0
  then show ?case by simp
next
  case (Suc n)
  have split: "{0..<int (Suc n)} = insert (int n) {0..<int n}" by auto
  have le1: "b 0 \<le> b (int n)" using mono [of 0 "int n"] Suc.prems by simp
  have le2: "b (int n) \<le> b (int n + 1)" using mono [of "int n" "int n + 1"] Suc.prems by simp
  have "(\<Union>r\<in>{0..<int (Suc n)}. {b r..<b (r + 1)})
          = {b (int n)..<b (int n + 1)} \<union> {b 0..<b (int n)}"
    using Suc.IH Suc.prems unfolding split by simp
  also have "\<dots> = {b 0..<b (int n + 1)}"
    using le1 le2 by auto
  finally show ?case by (simp add: add.commute)
qed

text \<open>
  Claim C4. In the LAS to LAZ direction the ranges of the ranks \<open>0\<close> to \<open>P - 1\<close>
  have lengths that sum to \<open>N\<close>; they start at 0, end at \<open>N\<close>, each begins where the
  one before ends, so that they are pairwise disjoint, in rank order, and cover exactly
  the indices from 0 to \<open>N\<close>; and both ends of every range but the last are multiples
  of the chunk size.
\<close>

theorem las_to_laz_ranges_tile:
  assumes "0 \<le> N" "0 < C" "0 < P"
  shows "(\<forall>r. 0 \<le> r \<and> r < P \<longrightarrow>
            las_to_laz_range N C P r = Inr (las_to_laz_points N C P r)
          \<and> point_start (las_to_laz_points N C P r) \<le> point_end (las_to_laz_points N C P r))
       \<and> (\<Sum>r = 0..<nat P. point_end (las_to_laz_points N C P (int r))
                            - point_start (las_to_laz_points N C P (int r))) = N
       \<and> point_start (las_to_laz_points N C P 0) = 0
       \<and> point_end (las_to_laz_points N C P (P - 1)) = N
       \<and> (\<forall>r. 0 \<le> r \<and> r < P - 1 \<longrightarrow>
            point_end (las_to_laz_points N C P r) = point_start (las_to_laz_points N C P (r + 1))
          \<and> C dvd point_start (las_to_laz_points N C P r)
          \<and> C dvd point_end (las_to_laz_points N C P r))
       \<and> (\<forall>r s. 0 \<le> r \<and> r < s \<and> s < P \<longrightarrow>
            point_end (las_to_laz_points N C P r) \<le> point_start (las_to_laz_points N C P s)
          \<and> range_set (las_to_laz_points N C P r) \<inter> range_set (las_to_laz_points N C P s) = {})
       \<and> (\<Union>r\<in>{0..<P}. range_set (las_to_laz_points N C P r)) = {0..<N}"
proof -
  define b where "b r = (if r = P then N else boundary N C P r)" for r
  have L: "0 \<le> N mod C" using assms by simp
  have bP: "boundary N C P P \<le> N" using boundary_P [OF assms] L by linarith
  have mono: "b r \<le> b s" if "0 \<le> r" "r \<le> s" "s \<le> P" for r s
  proof (cases "s = P")
    case True
    have "boundary N C P r \<le> boundary N C P P" using boundary_mono [OF assms] that by simp
    with True bP show ?thesis by (simp add: b_def)
  next
    case False
    with that have "r \<noteq> P" by simp
    with False boundary_mono [OF assms that(2)] show ?thesis by (simp add: b_def)
  qed
  have st: "point_start (las_to_laz_points N C P r) = b r" if "0 \<le> r" "r < P" for r
    using las_to_laz_points_closed [OF assms that] that by (simp add: b_def)
  have en: "point_end (las_to_laz_points N C P r) = b (r + 1)" if "0 \<le> r" "r < P" for r
  proof (cases "r = P - 1")
    case True
    with las_to_laz_points_closed [OF assms that] boundary_P [OF assms] show ?thesis
      by (simp add: b_def)
  next
    case False
    with las_to_laz_points_closed [OF assms that] that show ?thesis by (simp add: b_def)
  qed
  have b0: "b 0 = 0" using assms by (simp add: b_def boundary_def)
  have bN: "b P = N" by (simp add: b_def)
  have c1: "las_to_laz_range N C P r = Inr (las_to_laz_points N C P r)
          \<and> point_start (las_to_laz_points N C P r) \<le> point_end (las_to_laz_points N C P r)"
    if "0 \<le> r \<and> r < P" for r
    using that assms st [of r] en [of r] mono [of r "r + 1"] by (simp add: las_to_laz_range_def)
  have "(\<Sum>r = 0..<nat P. point_end (las_to_laz_points N C P (int r))
                            - point_start (las_to_laz_points N C P (int r)))
        = (\<Sum>r = 0..<nat P. b (int r + 1) - b (int r))"
    by (rule sum.cong) (simp_all add: st en)
  also have "\<dots> = N" using assms tile_sum [of b "nat P"] b0 bN by simp
  finally have c2: "(\<Sum>r = 0..<nat P. point_end (las_to_laz_points N C P (int r))
                            - point_start (las_to_laz_points N C P (int r))) = N" .
  have c3: "point_start (las_to_laz_points N C P 0) = 0" using st [of 0] assms b0 by simp
  have c4: "point_end (las_to_laz_points N C P (P - 1)) = N" using en [of "P - 1"] assms bN by simp
  have c5: "point_end (las_to_laz_points N C P r) = point_start (las_to_laz_points N C P (r + 1))
          \<and> C dvd point_start (las_to_laz_points N C P r)
          \<and> C dvd point_end (las_to_laz_points N C P r)"
    if "0 \<le> r \<and> r < P - 1" for r
    using that st [of r] st [of "r + 1"] en [of r] by (simp add: b_def boundary_def)
  have c6: "point_end (las_to_laz_points N C P r) \<le> point_start (las_to_laz_points N C P s)
          \<and> range_set (las_to_laz_points N C P r) \<inter> range_set (las_to_laz_points N C P s) = {}"
    if "0 \<le> r \<and> r < s \<and> s < P" for r s
  proof -
    have "b (r + 1) \<le> b s" using mono [of "r + 1" s] that by simp
    with that st [of s] en [of r] show ?thesis by (auto simp: range_set_def)
  qed
  have "(\<Union>r\<in>{0..<P}. range_set (las_to_laz_points N C P r)) = (\<Union>r\<in>{0..<P}. {b r..<b (r + 1)})"
    by (rule SUP_cong) (simp_all add: range_set_def st en)
  also have "\<dots> = {0..<N}"
    using tile_union [of P b "nat P"] mono assms b0 bN by simp
  finally have c7: "(\<Union>r\<in>{0..<P}. range_set (las_to_laz_points N C P r)) = {0..<N}" .
  from c1 c2 c3 c4 c5 c6 c7 show ?thesis by blast
qed

theorem las_to_laz_ranges_tile_witness:
  "las_to_laz_range 150001 50000 3 2 = Inr (las_to_laz_points 150001 50000 3 2)
   \<and> point_end (las_to_laz_points 150001 50000 3 2) = 150001
   \<and> point_end (las_to_laz_points 150001 50000 3 0) = point_start (las_to_laz_points 150001 50000 3 1)"
  using las_to_laz_ranges_tile [of 150001 50000 3] by simp



subsection \<open>Facts about the writer\<close>

lemma tell_open_writer [simp]: "tell (open_writer nil laz cs hdr tp) = int (length hdr)"
  by (simp add: tell_def open_writer_def)

lemma header_end_eq: "header_end job = int (length (header job))"
  by (simp add: header_end_def)

lemma write_point_p_count [simp]: "p_count (write_point e w p) = p_count w + 1"
  by (simp add: write_point_def Let_def table_entry_def coder_done_def)

lemma write_point_calls [simp]: "calls (write_point e w p) = calls w @ [WritePoint p]"
  by (simp add: write_point_def Let_def table_entry_def coder_done_def)

lemma write_point_seek_pos [simp]: "seek_pos (write_point e w p) = seek_pos w"
  by (simp add: write_point_def Let_def table_entry_def coder_done_def)

lemma write_point_compress [simp]: "compress (write_point e w p) = compress w"
  by (simp add: write_point_def Let_def table_entry_def coder_done_def)

lemma write_point_tell: "tell w \<le> tell (write_point e w p)"
  by (simp add: write_point_def Let_def table_entry_def coder_done_def tell_def)

lemma encode_loop_seek_pos [simp]: "seek_pos (encode_loop e ps w n) = seek_pos w"
  by (induction ps arbitrary: w) (simp_all add: Let_def)

lemma encode_loop_compress [simp]: "compress (encode_loop e ps w n) = compress w"
  by (induction ps arbitrary: w) (simp_all add: Let_def)

lemma encode_loop_tell: "tell w \<le> tell (encode_loop e ps w n)"
proof (induction ps arbitrary: w)
  case Nil
  then show ?case by simp
next
  case (Cons p ps)
  have "tell w \<le> tell (write_point e w p)" by (rule write_point_tell)
  also have "\<dots> \<le> tell (encode_loop e ps (write_point e w p) n)" by (rule Cons.IH)
  finally show ?case using write_point_tell [of w e p] by (simp add: Let_def)
qed

lemma enc_done_tell: "tell w \<le> tell (enc_done e w)"
  by (simp add: enc_done_def coder_done_def tell_def)

lemma add_chunk_to_table_tell [simp]: "tell (add_chunk_to_table w) = tell w"
  by (simp add: add_chunk_to_table_def table_entry_def tell_def)

lemma loop_points_Cons:
  "loop_points (p # ps) d = (if d = 1 then [p] else p # loop_points ps (d - 1))"
proof -
  have "take (nat d) (p # ps) = p # take (nat (d - 1)) ps" if "0 < d"
    using that by (cases "nat d") (simp_all add: nat_diff_distrib)
  then show ?thesis by (auto simp: loop_points_def)
qed

lemma encode_loop_written_gen:
  "calls (encode_loop e ps w n) = calls w @ map WritePoint (loop_points ps (n - p_count w))
   \<and> p_count (encode_loop e ps w n) = p_count w + int (length (loop_points ps (n - p_count w)))"
proof (induction ps arbitrary: w)
  case Nil
  then show ?case by (simp add: loop_points_def)
next
  case (Cons p ps)
  show ?case
  proof (cases "p_count w + 1 = n")
    case True
    then have "n - p_count w = 1" by simp
    with True show ?thesis by (simp add: Let_def loop_points_Cons)
  next
    case False
    then have ne: "n - p_count w \<noteq> 1" by simp
    have eq: "n - p_count (write_point e w p) = n - p_count w - 1" by simp
    from False Cons.IH [of "write_point e w p"] show ?thesis
      unfolding eq by (simp add: Let_def loop_points_Cons ne)
  qed
qed

lemma encode_loop_written:
  "p_count w = 0 \<Longrightarrow>
   calls (encode_loop e ps w n) = calls w @ map WritePoint (loop_points ps n)
   \<and> p_count (encode_loop e ps w n) = int (length (loop_points ps n))"
  using encode_loop_written_gen [of e ps w n] by simp

lemma sizing_count_nonneg: "0 \<le> snd (sizing_pass job rng)"
proof -
  let ?w0 = "open_writer True (\<not> laszip (lasreader job)) (chunk_size job) (header job) (table_pos job) :: 'a laswriter"
  let ?w1 = "encode_loop (enc job) (reader_seek (lasreader job) (point_start rng)) ?w0
                 (point_end rng - point_start rng)"
  have a: "tell ?w0 \<le> tell ?w1" by (rule encode_loop_tell)
  have b: "tell ?w1 \<le> tell (add_chunk_to_table (enc_done (enc job) ?w1))"
    using enc_done_tell [of ?w1 "enc job"] by simp
  show ?thesis
    using a b by (cases "laszip (lasreader job)") (simp_all add: sizing_pass_def Let_def)
qed

subsection \<open>The write offsets\<close>

lemma i64_id: "- (2 ^ 63) \<le> x \<Longrightarrow> x < 2 ^ 63 \<Longrightarrow> i64 x = x"
  by (simp add: i64_def)

lemma sum_list_take_mono:
  fixes xs :: "int list"
  assumes "\<forall>x\<in>set xs. 0 \<le> x" "m \<le> n"
  shows "sum_list (take m xs) \<le> sum_list (take n xs)"
proof -
  have "take n xs = take m xs @ take (n - m) (drop m xs)"
    using assms(2) by (metis le_add_diff_inverse take_add)
  moreover have "0 \<le> sum_list (take (n - m) (drop m xs))"
    using assms(1) by (intro sum_list_nonneg) (auto dest!: in_set_takeD in_set_dropD)
  ultimately show ?thesis by simp
qed

text \<open>
  The sum of the loop does not wrap around when the counts are not negative and the offset
  of the last rank plus its count is below \<open>2 ^ 63\<close>.
\<close>

lemma write_point_offset_sum:
  assumes "n \<le> length all" "\<forall>x\<in>set all. 0 \<le> x" "- (2 ^ 63) \<le> h"
    and "h + sum_list (take n all) < 2 ^ 63"
  shows "fold (\<lambda>i off. i64 (off + all ! i)) [0..<n] h = h + sum_list (take n all)"
  using assms(1,4)
proof (induction n)
  case 0
  then show ?case by simp
next
  case (Suc n)
  have n: "n < length all" using Suc.prems(1) by simp
  have s: "sum_list (take (Suc n) all) = sum_list (take n all) + all ! n"
    using n by (simp add: take_Suc_conv_app_nth)
  have "sum_list (take n all) \<le> sum_list (take (Suc n) all)"
    using assms(2) by (rule sum_list_take_mono) simp
  with Suc.prems(2) have "h + sum_list (take n all) < 2 ^ 63" by linarith
  with Suc.IH n have ih: "fold (\<lambda>i off. i64 (off + all ! i)) [0..<n] h = h + sum_list (take n all)"
    by simp
  have "0 \<le> sum_list (take (Suc n) all)"
    using assms(2) by (intro sum_list_nonneg) (auto dest!: in_set_takeD)
  with assms(3) have lo: "- (2 ^ 63) \<le> h + sum_list (take (Suc n) all)" by linarith
  have "fold (\<lambda>i off. i64 (off + all ! i)) [0..<Suc n] h = i64 (h + sum_list (take (Suc n) all))"
    by (simp add: ih s add.assoc)
  also have "\<dots> = h + sum_list (take (Suc n) all)"
    using lo Suc.prems(2) by (rule i64_id)
  finally show ?case .
qed

lemma write_point_offset_eq:
  assumes "nat rank \<le> length all" "\<forall>x\<in>set all. 0 \<le> x" "- (2 ^ 63) \<le> h"
    and "h + sum_list all < 2 ^ 63"
  shows "write_point_offset h all rank = h + sum_list (take (nat rank) all)"
proof -
  have "sum_list (take (nat rank) all) \<le> sum_list (take (length all) all)"
    using assms(2,1) by (rule sum_list_take_mono)
  with assms(4) have "h + sum_list (take (nat rank) all) < 2 ^ 63" by simp
  with assms(1,2,3) show ?thesis
    unfolding write_point_offset_def by (rule write_point_offset_sum)
qed

text \<open>
  Beyond that bound the sum wraps around: with the end of the header at \<open>2 ^ 63 - 1\<close>
  and a count of 11 bytes on rank 0, the offset of rank 1 is negative.
\<close>

lemma write_point_offset_wraps:
  "write_point_offset 9223372036854775807 [11] 1 = - 9223372036854775798"
  by code_simp

lemma final_pass_offset [simp]:
  "snd (final_pass job rng all rank) = write_point_offset (header_end job) all rank"
  by (simp add: final_pass_def Let_def header_end_def)

subsection \<open>The run of the cohort\<close>

lemma collect_Inr:
  "collect xs = Inr ys \<Longrightarrow> length ys = length xs \<and> (\<forall>i<length xs. xs ! i = Inr (ys ! i))"
proof (induction xs arbitrary: ys)
  case Nil
  then show ?case by simp
next
  case (Cons x xs)
  from Cons.prems obtain a as where x: "x = Inr a" and c: "collect xs = Inr as" and ys: "ys = a # as"
    by (auto split: sum.splits)
  from Cons.IH [OF c] have "length as = length xs" and nth: "\<forall>i<length xs. xs ! i = Inr (as ! i)"
    by simp_all
  show ?case
  proof (intro conjI allI impI)
    show "length ys = length (x # xs)" using ys \<open>length as = length xs\<close> by simp
  next
    fix i assume "i < length (x # xs)"
    then show "(x # xs) ! i = Inr (ys ! i)" using x ys nth by (cases i) simp_all
  qed
qed

lemma collect_all_Inr:
  "(\<forall>x\<in>set xs. \<exists>a. x = Inr a) \<Longrightarrow> \<exists>ys. collect xs = Inr ys"
  by (induction xs) auto



lemma length_peers_cohort [simp]: "length (peers (cohort job ranges)) = length ranges"
  by (simp add: cohort_def Let_def)

lemma nth_peers_cohort:
  "r < length ranges \<Longrightarrow>
   peers (cohort job ranges) ! r =
     \<lparr>peer_points = ranges ! r,
      sizing_writer = fst (sizing_pass job (ranges ! r)),
      point_bytes_written = snd (sizing_pass job (ranges ! r)),
      final_writer = fst (final_pass job (ranges ! r) (map (\<lambda>g. snd (sizing_pass job g)) ranges) (int r)),
      write_offset = write_point_offset (header_end job) (map (\<lambda>g. snd (sizing_pass job g)) ranges) (int r),
      peer_mpi = mpi_calls (laszip (lasreader job)) (process_count job) (int r)\<rparr>"
  by (simp add: cohort_def Let_def comp_def)

lemma table_writer_cohort:
  "table_writer (cohort job ranges) =
     (if \<not> laszip (lasreader job) \<and> ranges \<noteq> []
      then Some (table_phase (heap job) (enc job) (map (final_writer) (peers (cohort job ranges))))
      else None)"
  by (simp add: cohort_def Let_def comp_def)

lemma p_laszip_Inr:
  assumes "p_laszip job = Inr res"
  obtains ranges where
    "length ranges = nat (process_count job)"
    "\<And>r. r < nat (process_count job) \<Longrightarrow>
       peer_range (laszip (lasreader job)) (npoints (lasreader job)) (chunk_size job)
         (process_count job) (int r) = Inr (ranges ! r)"
    "res = cohort job ranges"
proof -
  let ?P = "nat (process_count job)"
  let ?f = "\<lambda>r. peer_range (laszip (lasreader job)) (npoints (lasreader job)) (chunk_size job)
         (process_count job) (int r)"
  from assms obtain ranges where c: "collect (map ?f [0..<?P]) = Inr ranges"
    and res: "res = cohort job ranges"
    by (auto simp: p_laszip_def Let_def split: sum.splits)
  from collect_Inr [OF c] have len: "length ranges = ?P"
    and nth: "\<And>r. r < ?P \<Longrightarrow> ?f r = Inr (ranges ! r)" by auto
  show ?thesis using that [of ranges] len nth res by blast
qed

text \<open>
  The final pass seeks to the write offset before it writes, and seeks once: the bytes of
  its writer lie in the file from the write offset on. The sizing count is the distance
  the nil stream has moved from the end of the header.
\<close>

lemma final_pass_seek_pos:
  "seek_pos (fst (final_pass job rng all rank)) = snd (final_pass job rng all rank)"
  by (simp add: final_pass_def Let_def header_end_def stream_seek_def enc_done_def
      add_chunk_to_table_def table_entry_def coder_done_def)

lemma final_pass_calls:
  "calls (fst (final_pass job rng all rank))
     = StreamSeek (snd (final_pass job rng all rank))
         # map WritePoint (written_points job rng)
         @ (if laszip (lasreader job) then [] else [EncDone, AddChunkToTable])"
proof -
  have e: "calls (encode_loop (enc job) (reader_seek (lasreader job) (point_start rng)) w
                 (point_end rng - point_start rng))
             = calls w @ map WritePoint (written_points job rng)"
    if "p_count w = 0" for w :: "'a laswriter"
    using encode_loop_written [OF that] by (simp add: written_points_def)
  show ?thesis
  proof (cases "laszip (lasreader job)")
    case True
    then show ?thesis
      by (simp add: final_pass_def Let_def e stream_seek_def open_writer_def)
  next
    case False
    then show ?thesis
      by (simp add: final_pass_def Let_def e stream_seek_def open_writer_def enc_done_def
          add_chunk_to_table_def table_entry_def coder_done_def)
  qed
qed

lemma sizing_pass_count:
  "snd (sizing_pass job rng) = tell (fst (sizing_pass job rng)) - header_end job"
  by (simp add: sizing_pass_def Let_def header_end_def)

text \<open>
  Claim C2. In a run of the cohort whose counts do not take the offsets beyond the range
  of an \<^verbatim>\<open>I64\<close> (the end of the header plus the sizing counts of all ranks is below
  \<open>2 ^ 63\<close>), the write offset of every rank is the end of the header plus the sizing
  counts of the ranks below it, where the sizing count of a rank is what its sizing pass
  sent to the nil stream after the header. The final pass of the rank seeks to that
  offset, once and before its first write, so that the bytes of its final writer are
  written in the file from that offset on. The byte intervals that the placement gives
  two different ranks, each as long as the sizing count of its rank, are disjoint, and
  the one of the lower rank ends before the other begins.
\<close>

theorem placement_offsets:
  assumes "p_laszip job = Inr res"
    and "header_end job + (\<Sum>pr\<leftarrow>peers res. point_bytes_written pr) < 2 ^ 63"
  shows "(\<forall>R<length (peers res).
            write_offset (peers res ! R)
              = header_end job + (\<Sum>i<R. point_bytes_written (peers res ! i))
          \<and> point_bytes_written (peers res ! R)
              = tell (sizing_writer (peers res ! R)) - header_end job
          \<and> seek_pos (final_writer (peers res ! R)) = write_offset (peers res ! R)
          \<and> calls (final_writer (peers res ! R))
              = StreamSeek (write_offset (peers res ! R))
                  # map WritePoint (written_points job (peer_points (peers res ! R)))
                  @ (if laszip (lasreader job) then [] else [EncDone, AddChunkToTable]))
       \<and> (\<forall>R S. R < S \<and> S < length (peers res) \<longrightarrow>
            write_offset (peers res ! R) + point_bytes_written (peers res ! R)
              \<le> write_offset (peers res ! S))
       \<and> (\<forall>R S. R < length (peers res) \<and> S < length (peers res) \<and> R \<noteq> S \<longrightarrow>
            byte_interval (peers res ! R) \<inter> byte_interval (peers res ! S) = {})"
proof -
  from assms(1) obtain ranges where res: "res = cohort job ranges"
    by (rule p_laszip_Inr)
  define all where "all = map (\<lambda>g. snd (sizing_pass job g)) ranges"
  have la: "length all = length (peers res)" by (simp add: all_def res)
  have nn: "\<forall>x\<in>set all. 0 \<le> x" by (auto simp: all_def sizing_count_nonneg)
  have pbw: "point_bytes_written (peers res ! r) = all ! r" if "r < length (peers res)" for r
    using that by (simp add: res nth_peers_cohort all_def)
  have mp: "map point_bytes_written (peers res) = all"
    using la by (intro nth_equalityI) (simp_all add: pbw)
  have hi: "header_end job + sum_list all < 2 ^ 63"
    using assms(2) unfolding mp .
  have "0 \<le> header_end job" by (simp add: header_end_eq)
  then have lo: "- (2 ^ 63) \<le> header_end job" by simp
  have off: "write_offset (peers res ! r) = header_end job + sum_list (take r all)"
    if "r < length (peers res)" for r
  proof -
    have "nat (int r) \<le> length all" using that la by simp
    from write_point_offset_eq [OF this nn lo hi] that show ?thesis
      by (simp add: res nth_peers_cohort all_def [symmetric])
  qed
  have a: "write_offset (peers res ! R)
              = header_end job + (\<Sum>i<R. point_bytes_written (peers res ! i))"
    if "R < length (peers res)" for R
  proof -
    have "sum_list (take R all) = (\<Sum>i = 0..<R. take R all ! i)"
      using that la by (simp add: sum_list_sum_nth)
    also have "\<dots> = (\<Sum>i<R. point_bytes_written (peers res ! i))"
      unfolding lessThan_atLeast0 using that by (intro sum.cong) (simp_all add: pbw)
    finally show ?thesis using off [OF that] by simp
  qed
  have s: "point_bytes_written (peers res ! R)
              = tell (sizing_writer (peers res ! R)) - header_end job"
    if "R < length (peers res)" for R
    using that sizing_pass_count [of job "ranges ! R"] by (simp add: res nth_peers_cohort)
  have k: "seek_pos (final_writer (peers res ! R)) = write_offset (peers res ! R)"
    if "R < length (peers res)" for R
    using that final_pass_seek_pos [of job "ranges ! R" all "int R"]
    by (simp add: res nth_peers_cohort all_def)
  have l: "calls (final_writer (peers res ! R))
              = StreamSeek (write_offset (peers res ! R))
                  # map WritePoint (written_points job (peer_points (peers res ! R)))
                  @ (if laszip (lasreader job) then [] else [EncDone, AddChunkToTable])"
    if "R < length (peers res)" for R
    using that final_pass_calls [of job "ranges ! R" all "int R"]
    by (simp add: res nth_peers_cohort all_def)
  have b: "write_offset (peers res ! R) + point_bytes_written (peers res ! R)
              \<le> write_offset (peers res ! S)"
    if "R < S \<and> S < length (peers res)" for R S
  proof -
    have R: "R < length (peers res)" using that by simp
    have "sum_list (take R all) + all ! R = sum_list (take (Suc R) all)"
      using R la by (simp add: take_Suc_conv_app_nth)
    also have "\<dots> \<le> sum_list (take S all)"
      using that by (intro sum_list_take_mono nn) simp
    finally show ?thesis using off [of R] off [of S] pbw [of R] that by simp
  qed
  have c: "byte_interval (peers res ! R) \<inter> byte_interval (peers res ! S) = {}"
    if "R < length (peers res) \<and> S < length (peers res) \<and> R \<noteq> S" for R S
  proof (cases "R < S")
    case True
    with b [of R S] that show ?thesis by (auto simp: byte_interval_def)
  next
    case False
    with that have "S < R" by simp
    with b [of S R] that show ?thesis by (auto simp: byte_interval_def)
  qed
  from a s k l b c show ?thesis by blast
qed

lemma example_ranges_2:
  "p_laszip (example_job e False 2 2 [1, 2, 3, 4, 5])
     = Inr (cohort (example_job e False 2 2 [1, 2, 3, 4, 5])
              [\<lparr>point_start = 0, point_end = 2\<rparr>, \<lparr>point_start = 2, point_end = 5\<rparr>])"
  by (simp add: p_laszip_def example_job_def peer_range_def las_to_laz_range_def
      las_to_laz_points_def all_process_chunks_def Let_def signed_divide_int_def
      signed_modulo_int_def eval_nat_numeral upt_rec)

text \<open>
  Five points, chunks of 2 points, 2 ranks: the ranges are 0 to 2 and 2 to 5. The header
  has 10 bytes, rank 0 counts 4 bytes and rank 1 counts 14 bytes: rank 1 seeks to byte 14.
\<close>

theorem placement_offsets_witness:
  "p_laszip (example_job example_encoder False 2 2 [1, 2, 3, 4, 5])
     = Inr (cohort (example_job example_encoder False 2 2 [1, 2, 3, 4, 5])
              [\<lparr>point_start = 0, point_end = 2\<rparr>, \<lparr>point_start = 2, point_end = 5\<rparr>])
   \<and> header_end (example_job example_encoder False 2 2 [1, 2, 3, 4, 5])
       + (\<Sum>pr\<leftarrow>peers (cohort (example_job example_encoder False 2 2 [1, 2, 3, 4, 5])
              [\<lparr>point_start = 0, point_end = 2\<rparr>, \<lparr>point_start = 2, point_end = 5\<rparr>]).
            point_bytes_written pr) = 28
   \<and> write_offset (peers (cohort (example_job example_encoder False 2 2 [1, 2, 3, 4, 5])
              [\<lparr>point_start = 0, point_end = 2\<rparr>, \<lparr>point_start = 2, point_end = 5\<rparr>]) ! 0)
       + point_bytes_written (peers (cohort (example_job example_encoder False 2 2 [1, 2, 3, 4, 5])
              [\<lparr>point_start = 0, point_end = 2\<rparr>, \<lparr>point_start = 2, point_end = 5\<rparr>]) ! 0)
     \<le> write_offset (peers (cohort (example_job example_encoder False 2 2 [1, 2, 3, 4, 5])
              [\<lparr>point_start = 0, point_end = 2\<rparr>, \<lparr>point_start = 2, point_end = 5\<rparr>]) ! 1)
   \<and> seek_pos (final_writer (peers (cohort (example_job example_encoder False 2 2 [1, 2, 3, 4, 5])
              [\<lparr>point_start = 0, point_end = 2\<rparr>, \<lparr>point_start = 2, point_end = 5\<rparr>]) ! 1))
     = write_offset (peers (cohort (example_job example_encoder False 2 2 [1, 2, 3, 4, 5])
              [\<lparr>point_start = 0, point_end = 2\<rparr>, \<lparr>point_start = 2, point_end = 5\<rparr>]) ! 1)"
proof -
  let ?J = "example_job example_encoder False 2 2 [1, 2, 3, 4, 5]"
  let ?res = "cohort ?J [\<lparr>point_start = 0, point_end = 2\<rparr>, \<lparr>point_start = 2, point_end = 5\<rparr>]"
  have t: "header_end ?J + (\<Sum>pr\<leftarrow>peers ?res. point_bytes_written pr) = 28"
    by code_simp
  then have h: "header_end ?J + (\<Sum>pr\<leftarrow>peers ?res. point_bytes_written pr) < 2 ^ 63"
    by simp
  have n: "length (peers ?res) = 2" by simp
  from placement_offsets [OF example_ranges_2 [of example_encoder] h]
  have k: "\<forall>R<length (peers ?res). seek_pos (final_writer (peers ?res ! R)) = write_offset (peers ?res ! R)"
    and b: "\<forall>R S. R < S \<and> S < length (peers ?res) \<longrightarrow>
            write_offset (peers ?res ! R) + point_bytes_written (peers ?res ! R)
              \<le> write_offset (peers ?res ! S)"
    by blast+
  from k n have k1: "seek_pos (final_writer (peers ?res ! 1)) = write_offset (peers ?res ! 1)"
    by simp
  from b n have b1: "write_offset (peers ?res ! 0) + point_bytes_written (peers ?res ! 0)
              \<le> write_offset (peers ?res ! 1)"
    by simp
  from example_ranges_2 [of example_encoder] t b1 k1 show ?thesis by blast
qed

lemma encode_loop_fold:
  "encode_loop e ps w n = foldl (write_point e) w (loop_points ps (n - p_count w))"
proof (induction ps arbitrary: w)
  case Nil
  then show ?case by (simp add: loop_points_def)
next
  case (Cons p ps)
  show ?case
  proof (cases "p_count w + 1 = n")
    case True
    then have "n - p_count w = 1" by simp
    with True show ?thesis by (simp add: Let_def loop_points_Cons)
  next
    case False
    then have ne: "n - p_count w \<noteq> 1" by simp
    have eq: "n - p_count (write_point e w p) = n - p_count w - 1" by simp
    from False Cons.IH [of "write_point e w p"] show ?thesis
      unfolding eq by (simp add: Let_def loop_points_Cons ne)
  qed
qed

text \<open>
  On a range that is not empty the loop writes the points of the range and no more,
  when the reader has them.
\<close>

lemma encode_loop_range:
  assumes "p_count w = 0" "0 < n" "nat n \<le> length ps"
  shows "p_count (encode_loop e ps w n) = n
       \<and> calls (encode_loop e ps w n) = calls w @ map WritePoint (take (nat n) ps)"
  using encode_loop_written [OF assms(1), of e ps n] assms(2,3)
  by (simp add: loop_points_def)

lemma example_ranges_4:
  "p_laszip (example_job e False 2 4 [1, 2, 3, 4, 5])
     = Inr (cohort (example_job e False 2 4 [1, 2, 3, 4, 5])
              [\<lparr>point_start = 0, point_end = 2\<rparr>, \<lparr>point_start = 2, point_end = 4\<rparr>,
               \<lparr>point_start = 4, point_end = 4\<rparr>, \<lparr>point_start = 4, point_end = 5\<rparr>])"
  by (simp add: p_laszip_def example_job_def peer_range_def las_to_laz_range_def
      las_to_laz_points_def all_process_chunks_def Let_def signed_divide_int_def
      signed_modulo_int_def eval_nat_numeral upt_rec)

text \<open>
  Claim C9 says that the loop of a rank writes as many points as its range holds. With
  five points, chunks of 2 points and 4 ranks, rank 2 has the empty range from 4 to 4; its
  loop writes the point of index 4 in the sizing pass and in the final pass, since the
  test on \<^verbatim>\<open>p_count\<close> follows the write.
\<close>

theorem empty_range_writes_a_point:
  "p_laszip (example_job example_encoder False 2 4 [1, 2, 3, 4, 5])
     = Inr (cohort (example_job example_encoder False 2 4 [1, 2, 3, 4, 5])
              [\<lparr>point_start = 0, point_end = 2\<rparr>, \<lparr>point_start = 2, point_end = 4\<rparr>,
               \<lparr>point_start = 4, point_end = 4\<rparr>, \<lparr>point_start = 4, point_end = 5\<rparr>])
   \<and> p_count (sizing_writer (peers (cohort (example_job example_encoder False 2 4 [1, 2, 3, 4, 5])
              [\<lparr>point_start = 0, point_end = 2\<rparr>, \<lparr>point_start = 2, point_end = 4\<rparr>,
               \<lparr>point_start = 4, point_end = 4\<rparr>, \<lparr>point_start = 4, point_end = 5\<rparr>]) ! 2)) = 1
   \<and> calls (final_writer (peers (cohort (example_job example_encoder False 2 4 [1, 2, 3, 4, 5])
              [\<lparr>point_start = 0, point_end = 2\<rparr>, \<lparr>point_start = 2, point_end = 4\<rparr>,
               \<lparr>point_start = 4, point_end = 4\<rparr>, \<lparr>point_start = 4, point_end = 5\<rparr>]) ! 2))
       = [StreamSeek 22, WritePoint 5, EncDone, AddChunkToTable]"
proof -
  have "p_count (sizing_writer (peers (cohort (example_job example_encoder False 2 4 [1, 2, 3, 4, 5])
              [\<lparr>point_start = 0, point_end = 2\<rparr>, \<lparr>point_start = 2, point_end = 4\<rparr>,
               \<lparr>point_start = 4, point_end = 4\<rparr>, \<lparr>point_start = 4, point_end = 5\<rparr>]) ! 2)) = 1"
    by code_simp
  moreover have "calls (final_writer (peers (cohort (example_job example_encoder False 2 4 [1, 2, 3, 4, 5])
              [\<lparr>point_start = 0, point_end = 2\<rparr>, \<lparr>point_start = 2, point_end = 4\<rparr>,
               \<lparr>point_start = 4, point_end = 4\<rparr>, \<lparr>point_start = 4, point_end = 5\<rparr>]) ! 2))
       = [StreamSeek 22, WritePoint 5, EncDone, AddChunkToTable]"
    by code_simp
  ultimately show ?thesis using example_ranges_4 [of example_encoder] by simp
qed


lemma foldl_write_point_calls [simp]:
  "calls (foldl (write_point e) w ps) = calls w @ map WritePoint ps"
  by (induction ps arbitrary: w) simp_all

lemma mpi_calls_laz [simp]:
  "mpi_calls True nprocs rank =
     [Barrier, Barrier, Barrier, Barrier, Allgather, Barrier, Barrier, Barrier, Barrier]"
  by (simp add: mpi_calls_def)

lemma sizing_pass_laz:
  "laszip (lasreader job) \<Longrightarrow>
   fst (sizing_pass job rng) =
     foldl (write_point (enc job))
       (open_writer True False (chunk_size job) (header job) (table_pos job))
       (written_points job rng)"
  by (simp add: sizing_pass_def Let_def encode_loop_fold written_points_def open_writer_def)

lemma final_pass_laz:
  "laszip (lasreader job) \<Longrightarrow>
   fst (final_pass job rng all rank) =
     foldl (write_point (enc job))
       (stream_seek (open_writer False False (chunk_size job) (header job) (table_pos job))
          (snd (final_pass job rng all rank)))
       (written_points job rng)"
  by (simp add: final_pass_def Let_def encode_loop_fold written_points_def open_writer_def
      stream_seek_def)

text \<open>
  The frame of the LAZ to LAS direction. No chunk table is written, the MPI calls of every
  rank are barriers and the all-gather only, and the writer of each pass is a freshly
  opened writer (which emits the header) on which, after the seek of the final pass,
  nothing but \<^verbatim>\<open>write_point\<close> was called: there is no call of \<^verbatim>\<open>enc->done\<close>,
  \<^verbatim>\<open>add_chunk_to_table\<close> or \<^verbatim>\<open>write_chunk_table\<close>. The points written are those
  of the range of the rank when the range is not empty.
\<close>

lemma laz_to_las_frame:
  assumes "laszip (lasreader job)" "p_laszip job = Inr res"
  shows "table_writer res = None
       \<and> (\<forall>pr\<in>set (peers res).
            peer_mpi pr
              = [Barrier, Barrier, Barrier, Barrier, Allgather, Barrier, Barrier, Barrier, Barrier]
          \<and> sizing_writer pr
              = foldl (write_point (enc job))
                  (open_writer True False (chunk_size job) (header job) (table_pos job))
                  (written_points job (peer_points pr))
          \<and> final_writer pr
              = foldl (write_point (enc job))
                  (stream_seek (open_writer False False (chunk_size job) (header job) (table_pos job))
                     (write_offset pr))
                  (written_points job (peer_points pr))
          \<and> calls (sizing_writer pr) = map WritePoint (written_points job (peer_points pr))
          \<and> calls (final_writer pr)
              = StreamSeek (write_offset pr) # map WritePoint (written_points job (peer_points pr))
          \<and> (point_start (peer_points pr) < point_end (peer_points pr) \<longrightarrow>
               written_points job (peer_points pr)
                 = take (nat (point_end (peer_points pr) - point_start (peer_points pr)))
                     (drop (nat (point_start (peer_points pr))) (points (lasreader job)))))"
proof -
  from assms(2) obtain ranges where res: "res = cohort job ranges"
    by (rule p_laszip_Inr)
  have t: "table_writer res = None"
    using assms(1) by (simp add: res table_writer_cohort)
  have p: "peer_mpi pr
              = [Barrier, Barrier, Barrier, Barrier, Allgather, Barrier, Barrier, Barrier, Barrier]
          \<and> sizing_writer pr
              = foldl (write_point (enc job))
                  (open_writer True False (chunk_size job) (header job) (table_pos job))
                  (written_points job (peer_points pr))
          \<and> final_writer pr
              = foldl (write_point (enc job))
                  (stream_seek (open_writer False False (chunk_size job) (header job) (table_pos job))
                     (write_offset pr))
                  (written_points job (peer_points pr))
          \<and> calls (sizing_writer pr) = map WritePoint (written_points job (peer_points pr))
          \<and> calls (final_writer pr)
              = StreamSeek (write_offset pr) # map WritePoint (written_points job (peer_points pr))
          \<and> (point_start (peer_points pr) < point_end (peer_points pr) \<longrightarrow>
               written_points job (peer_points pr)
                 = take (nat (point_end (peer_points pr) - point_start (peer_points pr)))
                     (drop (nat (point_start (peer_points pr))) (points (lasreader job))))"
    if "pr \<in> set (peers res)" for pr
  proof -
    from that obtain r where r: "r < length ranges" and pr: "pr = peers (cohort job ranges) ! r"
      unfolding res by (auto simp: in_set_conv_nth)
    let ?all = "map (\<lambda>g. snd (sizing_pass job g)) ranges"
    have 1: "peer_mpi pr = [Barrier, Barrier, Barrier, Barrier, Allgather, Barrier, Barrier, Barrier, Barrier]"
      using assms(1) r by (simp add: pr nth_peers_cohort)
    have pp: "peer_points pr = ranges ! r" using r by (simp add: pr nth_peers_cohort)
    have wo: "write_offset pr = snd (final_pass job (ranges ! r) ?all (int r))"
      using r by (simp add: pr nth_peers_cohort)
    have 2: "sizing_writer pr
              = foldl (write_point (enc job))
                  (open_writer True False (chunk_size job) (header job) (table_pos job))
                  (written_points job (peer_points pr))"
      using r sizing_pass_laz [OF assms(1), of "ranges ! r"] by (simp add: pr nth_peers_cohort)
    have 3: "final_writer pr
              = foldl (write_point (enc job))
                  (stream_seek (open_writer False False (chunk_size job) (header job) (table_pos job))
                     (write_offset pr))
                  (written_points job (peer_points pr))"
      unfolding wo pp using r final_pass_laz [OF assms(1), of "ranges ! r" ?all "int r"]
      by (simp add: pr nth_peers_cohort)
    have 4: "calls (sizing_writer pr) = map WritePoint (written_points job (peer_points pr))"
      unfolding 2 by (simp add: open_writer_def)
    have 5: "calls (final_writer pr)
              = StreamSeek (write_offset pr) # map WritePoint (written_points job (peer_points pr))"
      unfolding 3 by (simp add: open_writer_def stream_seek_def)
    have 6: "point_start (peer_points pr) < point_end (peer_points pr) \<longrightarrow>
               written_points job (peer_points pr)
                 = take (nat (point_end (peer_points pr) - point_start (peer_points pr)))
                     (drop (nat (point_start (peer_points pr))) (points (lasreader job)))"
      by (simp add: written_points_def loop_points_def reader_seek_def)
    from 1 2 3 4 5 6 show ?thesis by blast
  qed
  from t p show ?thesis by blast
qed

lemma example_ranges_laz:
  "p_laszip (example_job e True 2 3 [1, 2, 3, 4, 5])
     = Inr (cohort (example_job e True 2 3 [1, 2, 3, 4, 5])
              [\<lparr>point_start = 0, point_end = 1\<rparr>, \<lparr>point_start = 1, point_end = 2\<rparr>,
               \<lparr>point_start = 2, point_end = 5\<rparr>])"
  by (simp add: p_laszip_def example_job_def peer_range_def laz_to_las_range_def
      laz_to_las_points_def Let_def signed_divide_int_def
      signed_modulo_int_def eval_nat_numeral upt_rec)

text \<open>Five points on 3 ranks: the ranges are 0 to 1, 1 to 2 and 2 to 5, and no table is written.\<close>

lemma laz_to_las_frame_example:
  "laszip (lasreader (example_job example_encoder True 2 3 [1, 2, 3, 4, 5]))
   \<and> p_laszip (example_job example_encoder True 2 3 [1, 2, 3, 4, 5])
     = Inr (cohort (example_job example_encoder True 2 3 [1, 2, 3, 4, 5])
              [\<lparr>point_start = 0, point_end = 1\<rparr>, \<lparr>point_start = 1, point_end = 2\<rparr>,
               \<lparr>point_start = 2, point_end = 5\<rparr>])
   \<and> table_writer (cohort (example_job example_encoder True 2 3 [1, 2, 3, 4, 5])
              [\<lparr>point_start = 0, point_end = 1\<rparr>, \<lparr>point_start = 1, point_end = 2\<rparr>,
               \<lparr>point_start = 2, point_end = 5\<rparr>]) = None"
proof -
  have l: "laszip (lasreader (example_job example_encoder True 2 3 [1, 2, 3, 4, 5]))"
    by (simp add: example_job_def)
  from laz_to_las_frame [OF l example_ranges_laz [of example_encoder]] l
    example_ranges_laz [of example_encoder]
  show ?thesis by simp
qed

lemma example_ranges_laz_few:
  "p_laszip (example_job e True 2 3 [1, 2])
     = Inr (cohort (example_job e True 2 3 [1, 2])
              [\<lparr>point_start = 0, point_end = 0\<rparr>, \<lparr>point_start = 0, point_end = 0\<rparr>,
               \<lparr>point_start = 0, point_end = 2\<rparr>])"
  by (simp add: p_laszip_def example_job_def peer_range_def laz_to_las_range_def
      laz_to_las_points_def Let_def signed_divide_int_def
      signed_modulo_int_def eval_nat_numeral upt_rec)

text \<open>
  Claim C10 says that in the LAZ to LAS direction the only bytes written are the header
  and the point range of each peer. On a LAZ input of 2 points and 3 ranks, the ranks 0
  and 1 have the empty range from 0 to 0 and the last rank has both points; the loop of
  rank 0 tests \<^verbatim>\<open>p_count\<close> after the write only, so that rank 0 writes both points,
  which are not of its range, in the sizing pass and in the final pass, and rank 1
  writes them again from byte 13 on. No chunk is closed and no table is written, as the
  claim says.
\<close>

theorem laz_to_las_empty_range_writes:
  "laszip (lasreader (example_job example_encoder True 2 3 [1, 2]))
   \<and> p_laszip (example_job example_encoder True 2 3 [1, 2])
     = Inr (cohort (example_job example_encoder True 2 3 [1, 2])
              [\<lparr>point_start = 0, point_end = 0\<rparr>, \<lparr>point_start = 0, point_end = 0\<rparr>,
               \<lparr>point_start = 0, point_end = 2\<rparr>])
   \<and> peer_points (peers (cohort (example_job example_encoder True 2 3 [1, 2])
              [\<lparr>point_start = 0, point_end = 0\<rparr>, \<lparr>point_start = 0, point_end = 0\<rparr>,
               \<lparr>point_start = 0, point_end = 2\<rparr>]) ! 0)
       = \<lparr>point_start = 0, point_end = 0\<rparr>
   \<and> calls (sizing_writer (peers (cohort (example_job example_encoder True 2 3 [1, 2])
              [\<lparr>point_start = 0, point_end = 0\<rparr>, \<lparr>point_start = 0, point_end = 0\<rparr>,
               \<lparr>point_start = 0, point_end = 2\<rparr>]) ! 0))
       = [WritePoint 1, WritePoint 2]
   \<and> calls (final_writer (peers (cohort (example_job example_encoder True 2 3 [1, 2])
              [\<lparr>point_start = 0, point_end = 0\<rparr>, \<lparr>point_start = 0, point_end = 0\<rparr>,
               \<lparr>point_start = 0, point_end = 2\<rparr>]) ! 0))
       = [StreamSeek 10, WritePoint 1, WritePoint 2]
   \<and> length (out (final_writer (peers (cohort (example_job example_encoder True 2 3 [1, 2])
              [\<lparr>point_start = 0, point_end = 0\<rparr>, \<lparr>point_start = 0, point_end = 0\<rparr>,
               \<lparr>point_start = 0, point_end = 2\<rparr>]) ! 0))) = 3
   \<and> calls (final_writer (peers (cohort (example_job example_encoder True 2 3 [1, 2])
              [\<lparr>point_start = 0, point_end = 0\<rparr>, \<lparr>point_start = 0, point_end = 0\<rparr>,
               \<lparr>point_start = 0, point_end = 2\<rparr>]) ! 1))
       = [StreamSeek 13, WritePoint 1, WritePoint 2]
   \<and> table_writer (cohort (example_job example_encoder True 2 3 [1, 2])
              [\<lparr>point_start = 0, point_end = 0\<rparr>, \<lparr>point_start = 0, point_end = 0\<rparr>,
               \<lparr>point_start = 0, point_end = 2\<rparr>]) = None"
proof -
  let ?J = "example_job example_encoder True 2 3 [1, 2]"
  let ?res = "cohort ?J [\<lparr>point_start = 0, point_end = 0\<rparr>, \<lparr>point_start = 0, point_end = 0\<rparr>,
               \<lparr>point_start = 0, point_end = 2\<rparr>]"
  have l: "laszip (lasreader ?J)" by (simp add: example_job_def)
  have a: "peer_points (peers ?res ! 0) = \<lparr>point_start = 0, point_end = 0\<rparr>" by code_simp
  have b: "calls (sizing_writer (peers ?res ! 0)) = [WritePoint 1, WritePoint 2]" by code_simp
  have c: "calls (final_writer (peers ?res ! 0)) = [StreamSeek 10, WritePoint 1, WritePoint 2]"
    by code_simp
  have d: "length (out (final_writer (peers ?res ! 0))) = 3" by code_simp
  have e: "calls (final_writer (peers ?res ! 1)) = [StreamSeek 13, WritePoint 1, WritePoint 2]"
    by code_simp
  have f: "table_writer ?res = None" using l by (simp add: table_writer_cohort)
  from l example_ranges_laz_few [of example_encoder] a b c d e f show ?thesis by blast
qed

subsection \<open>No check of the sizing count\<close>

lemma fold_nth_cong:
  "(\<And>i. i < n \<Longrightarrow> xs ! i = ys ! i) \<Longrightarrow>
   fold (\<lambda>i off. i64 (off + xs ! i)) [0..<n] h = fold (\<lambda>i off. i64 (off + ys ! i)) [0..<n] h"
  by (induction n) simp_all

lemma write_point_offset_own_count:
  "0 \<le> r \<Longrightarrow> write_point_offset h (all[nat r := x]) r = write_point_offset h all r"
  unfolding write_point_offset_def by (rule fold_nth_cong) simp

lemma peer_range_Inr:
  assumes "0 < P" "laz \<or> C \<noteq> 0"
  shows "\<exists>rng. peer_range laz N C P r = Inr rng"
  using assms by (auto simp: peer_range_def las_to_laz_range_def laz_to_las_range_def)

text \<open>
  Claim C7, amended. The job does not stop on a difference between the two byte counts:
  with at least one rank and a chunk size that is not zero, the run returns normally for
  every coder, also one that emits other bytes in the final pass than in the sizing
  pass; and the sizing count of a rank is no input of its own final pass, which reads
  the counts of the ranks below it only.
\<close>

theorem sizing_count_unchecked:
  assumes "0 < process_count job" "laszip (lasreader job) \<or> chunk_size job \<noteq> 0"
  shows "(\<exists>res. p_laszip job = Inr res \<and> length (peers res) = nat (process_count job))
       \<and> (\<forall>rng all r x. 0 \<le> r \<longrightarrow>
            final_pass job rng (all[nat r := x]) r = final_pass job rng all r)"
proof -
  let ?f = "\<lambda>r. peer_range (laszip (lasreader job)) (npoints (lasreader job)) (chunk_size job)
         (process_count job) (int r)"
  have "\<forall>x\<in>set (map ?f [0..<nat (process_count job)]). \<exists>a. x = Inr a"
    using peer_range_Inr [OF assms] by auto
  then obtain ranges where c: "collect (map ?f [0..<nat (process_count job)]) = Inr ranges"
    using collect_all_Inr by blast
  from collect_Inr [OF c] have len: "length ranges = nat (process_count job)" by simp
  have "p_laszip job = Inr (cohort job ranges)"
    using c by (simp add: p_laszip_def Let_def)
  then have a: "\<exists>res. p_laszip job = Inr res \<and> length (peers res) = nat (process_count job)"
    using len by simp
  have b: "final_pass job rng (all[nat r := x]) r = final_pass job rng all r"
    if "0 \<le> r" for rng all r x
    using that by (simp add: final_pass_def Let_def write_point_offset_own_count)
  from a b show ?thesis by blast
qed

theorem sizing_count_unchecked_witness:
  "\<not> isl (p_laszip (example_job unstable_encoder False 2 2 [1, 2, 3, 4, 5]))
   \<and> final_pass (example_job unstable_encoder False 2 2 [1, 2, 3, 4, 5])
        \<lparr>point_start = 2, point_end = 5\<rparr> ([2, 3][nat 1 := 77]) 1
     = final_pass (example_job unstable_encoder False 2 2 [1, 2, 3, 4, 5])
        \<lparr>point_start = 2, point_end = 5\<rparr> [2, 3] 1"
proof -
  have h: "0 < process_count (example_job unstable_encoder False 2 2 [1, 2, 3, 4, 5])"
    "laszip (lasreader (example_job unstable_encoder False 2 2 [1, 2, 3, 4, 5]))
     \<or> chunk_size (example_job unstable_encoder False 2 2 [1, 2, 3, 4, 5]) \<noteq> 0"
    by (simp_all add: example_job_def)
  from sizing_count_unchecked [OF h]
  have a: "\<exists>res. p_laszip (example_job unstable_encoder False 2 2 [1, 2, 3, 4, 5]) = Inr res"
    and b: "\<forall>rng all r x. 0 \<le> r \<longrightarrow>
            final_pass (example_job unstable_encoder False 2 2 [1, 2, 3, 4, 5]) rng (all[nat r := x]) r
              = final_pass (example_job unstable_encoder False 2 2 [1, 2, 3, 4, 5]) rng all r"
    by blast+
  have "(0::int) \<le> 1" by simp
  with b have "final_pass (example_job unstable_encoder False 2 2 [1, 2, 3, 4, 5])
        \<lparr>point_start = 2, point_end = 5\<rparr> ([2, 3][nat 1 := 77]) 1
     = final_pass (example_job unstable_encoder False 2 2 [1, 2, 3, 4, 5])
        \<lparr>point_start = 2, point_end = 5\<rparr> [2, 3] 1"
    by blast
  moreover from a have "\<not> isl (p_laszip (example_job unstable_encoder False 2 2 [1, 2, 3, 4, 5]))"
    by auto
  ultimately show ?thesis by blast
qed

text \<open>
  Claim C7 says that a final pass whose byte count differs from the sizing count stops
  the job. With a coder that sends one byte per point to the nil stream and two bytes
  per point to the file, rank 0 counts 2 bytes in the sizing pass and writes 4 bytes in
  the final pass; the run returns normally and the chunk table is written.
\<close>

theorem sizing_mismatch_not_detected:
  "p_laszip (example_job unstable_encoder False 2 2 [1, 2, 3, 4, 5])
     = Inr (cohort (example_job unstable_encoder False 2 2 [1, 2, 3, 4, 5])
              [\<lparr>point_start = 0, point_end = 2\<rparr>, \<lparr>point_start = 2, point_end = 5\<rparr>])
   \<and> point_bytes_written (peers (cohort (example_job unstable_encoder False 2 2 [1, 2, 3, 4, 5])
              [\<lparr>point_start = 0, point_end = 2\<rparr>, \<lparr>point_start = 2, point_end = 5\<rparr>]) ! 0) = 2
   \<and> tell (final_writer (peers (cohort (example_job unstable_encoder False 2 2 [1, 2, 3, 4, 5])
              [\<lparr>point_start = 0, point_end = 2\<rparr>, \<lparr>point_start = 2, point_end = 5\<rparr>]) ! 0))
       - write_offset (peers (cohort (example_job unstable_encoder False 2 2 [1, 2, 3, 4, 5])
              [\<lparr>point_start = 0, point_end = 2\<rparr>, \<lparr>point_start = 2, point_end = 5\<rparr>]) ! 0) = 4
   \<and> table_writer (cohort (example_job unstable_encoder False 2 2 [1, 2, 3, 4, 5])
              [\<lparr>point_start = 0, point_end = 2\<rparr>, \<lparr>point_start = 2, point_end = 5\<rparr>]) \<noteq> None"
proof -
  have "point_bytes_written (peers (cohort (example_job unstable_encoder False 2 2 [1, 2, 3, 4, 5])
              [\<lparr>point_start = 0, point_end = 2\<rparr>, \<lparr>point_start = 2, point_end = 5\<rparr>]) ! 0) = 2"
    by code_simp
  moreover have "tell (final_writer (peers (cohort (example_job unstable_encoder False 2 2 [1, 2, 3, 4, 5])
              [\<lparr>point_start = 0, point_end = 2\<rparr>, \<lparr>point_start = 2, point_end = 5\<rparr>]) ! 0))
       - write_offset (peers (cohort (example_job unstable_encoder False 2 2 [1, 2, 3, 4, 5])
              [\<lparr>point_start = 0, point_end = 2\<rparr>, \<lparr>point_start = 2, point_end = 5\<rparr>]) ! 0) = 4"
    by code_simp
  moreover have "table_writer (cohort (example_job unstable_encoder False 2 2 [1, 2, 3, 4, 5])
              [\<lparr>point_start = 0, point_end = 2\<rparr>, \<lparr>point_start = 2, point_end = 5\<rparr>]) \<noteq> None"
    by (simp add: table_writer_cohort example_job_def)
  ultimately show ?thesis using example_ranges_2 [of unstable_encoder] by simp
qed



subsection \<open>The chunk table\<close>

lemma fold_add_nth:
  fixes h :: "'a::comm_monoid_add"
  shows "n \<le> length xs \<Longrightarrow> fold (\<lambda>i t. t + xs ! i) [0..<n] h = h + sum_list (take n xs)"
  by (induction n) (simp_all add: take_Suc_conv_app_nth add.assoc)

lemma number_chunks_total_eq: "number_chunks_total xs = sum_list xs"
  by (simp add: number_chunks_total_def fold_add_nth)

lemma unat_sum_list:
  fixes xs :: "u32 list"
  shows "sum_list (map unat xs) < 2 ^ 32 \<Longrightarrow> unat (sum_list xs) = sum_list (map unat xs)"
proof (induction xs)
  case Nil
  then show ?case by simp
next
  case (Cons x xs)
  then have "sum_list (map unat xs) < 2 ^ 32" by simp
  with Cons.IH have ih: "unat (sum_list xs) = sum_list (map unat xs)" by simp
  have "unat x + unat (sum_list xs) < 2 ^ LENGTH(32)" using Cons.prems ih by simp
  then have "unat (x + sum_list xs) = unat x + unat (sum_list xs)"
    by (simp only: unat_add_lem)
  with ih show ?case by simp
qed

lemma length_number_chunks_offsets_loop [simp]:
  "length (number_chunks_offsets_loop cs c) = length cs"
  by (induction cs arbitrary: c) simp_all

lemma nth_number_chunks_offsets_loop:
  "i < length cs \<Longrightarrow> number_chunks_offsets_loop cs c ! i = c + sum_list (take i cs)"
proof (induction cs arbitrary: c i)
  case Nil
  then show ?case by simp
next
  case (Cons a cs)
  show ?case
  proof (cases i)
    case 0
    then show ?thesis by simp
  next
    case (Suc j)
    with Cons.prems have "j < length cs" by simp
    from Cons.IH [OF this] Suc show ?thesis by (simp add: add.assoc)
  qed
qed

lemma sum_list_take_le:
  fixes xs :: "nat list"
  shows "sum_list (take i xs) \<le> sum_list xs"
proof -
  have "sum_list xs = sum_list (take i xs) + sum_list (drop i xs)"
    by (metis append_take_drop_id sum_list_append)
  then show ?thesis by simp
qed

lemma unat_offset:
  fixes cs :: "u32 list"
  assumes "sum_list (map unat cs) < 2 ^ 32" "i < length cs"
  shows "unat (number_chunks_offsets_loop cs 0 ! i) = sum_list (map unat (take i cs))"
proof -
  have "sum_list (map unat (take i cs)) \<le> sum_list (map unat cs)"
    using sum_list_take_le [of i "map unat cs"] by (simp add: take_map)
  with assms(1) have "sum_list (map unat (take i cs)) < 2 ^ 32" by simp
  then have "unat (sum_list (take i cs)) = sum_list (map unat (take i cs))"
    by (rule unat_sum_list)
  with assms(2) show ?thesis by (simp add: nth_number_chunks_offsets_loop)
qed

lemma recv_fold:
  assumes "k \<le> length ms"
    and "\<And>i. i < length ms \<Longrightarrow> off i = length (concat (take i ms))"
  shows "fold (\<lambda>i b. recv_into b (off i) (ms ! i)) [0..<k] block
           = (\<lambda>j. if j < length (concat (take k ms)) then concat (take k ms) ! j else block j)"
  using assms(1)
proof (induction k)
  case 0
  then show ?case by simp
next
  case (Suc k)
  then have k: "k < length ms" by simp
  have tk: "take (Suc k) ms = take k ms @ [ms ! k]" using k by (simp add: take_Suc_conv_app_nth)
  have "fold (\<lambda>i b. recv_into b (off i) (ms ! i)) [0..<Suc k] block
          = recv_into (\<lambda>j. if j < length (concat (take k ms)) then concat (take k ms) ! j else block j)
              (length (concat (take k ms))) (ms ! k)"
    using Suc.IH k assms(2) [OF k] by simp
  also have "\<dots> = (\<lambda>j. if j < length (concat (take (Suc k) ms))
                         then concat (take (Suc k) ms) ! j else block j)"
    unfolding tk by (rule ext) (auto simp: recv_into_def nth_append)
  finally show ?case .
qed

lemma table_phase_assembly:
  assumes ne: "ws \<noteq> []"
    and nowrap: "(\<Sum>w\<leftarrow>ws. unat (number_chunks w)) < 2 ^ 32"
    and filled: "\<forall>w\<in>set ws. unat (number_chunks w) \<le> length (chunk_bytes w)"
  shows "unat (number_chunks (table_phase block e ws)) = (\<Sum>w\<leftarrow>ws. unat (number_chunks w))"
    and "chunk_bytes (table_phase block e ws) = concat (map chunk_bytes_message ws)"
    and "chunk_table_start_position (table_phase block e ws) = chunk_table_start_position (ws ! 0)"
    and "calls (table_phase block e ws) = calls (last ws) @ [WriteChunkTable]"
proof -
  let ?cs = "map number_chunks ws"
  let ?ms = "map chunk_bytes_message ws"
  have s: "sum_list (map unat ?cs) = (\<Sum>w\<leftarrow>ws. unat (number_chunks w))"
    by (simp add: comp_def)
  have total: "unat (number_chunks_total ?cs) = (\<Sum>w\<leftarrow>ws. unat (number_chunks w))"
    using unat_sum_list [of ?cs] nowrap s by (simp add: number_chunks_total_eq)
  have len_msg: "length (chunk_bytes_message w) = unat (number_chunks w)" if "w \<in> set ws" for w
    using filled that by (simp add: chunk_bytes_message_def)
  have len_concat: "length (concat (take i ?ms)) = sum_list (map unat (take i ?cs))" for i
  proof -
    have "length (concat (take i ?ms)) = (\<Sum>w\<leftarrow>take i ws. length (chunk_bytes_message w))"
      by (simp add: length_concat take_map comp_def)
    also have "\<dots> = (\<Sum>w\<leftarrow>take i ws. unat (number_chunks w))"
      by (rule arg_cong [where f = sum_list], rule map_cong [OF refl])
         (auto dest: in_set_takeD simp: len_msg)
    finally show ?thesis by (simp add: take_map comp_def)
  qed
  have off: "unat (number_chunks_offsets_loop ?cs 0 ! i) = length (concat (take i ?ms))"
    if "i < length ?ms" for i
    using unat_offset [of ?cs i] nowrap s that len_concat [of i] by simp
  have "chunk_table_block block ws
          = fold (\<lambda>i b. recv_into b (unat (number_chunks_offsets_loop ?cs 0 ! i)) (?ms ! i))
              [0..<length ?ms] block"
    unfolding chunk_table_block_def Let_def by (rule fold_cong) simp_all
  also have "\<dots> = (\<lambda>j. if j < length (concat (take (length ?ms) ?ms))
                         then concat (take (length ?ms) ?ms) ! j else block j)"
    by (rule recv_fold) (simp_all add: off)
  finally have blk: "chunk_table_block block ws
          = (\<lambda>j. if j < length (concat ?ms) then concat ?ms ! j else block j)"
    by (simp cong: if_cong)
  have tl: "unat (number_chunks_total ?cs) = length (concat ?ms)"
    using total len_concat [of "length ws"] s by simp
  show "unat (number_chunks (table_phase block e ws)) = (\<Sum>w\<leftarrow>ws. unat (number_chunks w))"
    using total by (simp add: table_phase_def Let_def write_chunk_table_def)
  show "chunk_table_start_position (table_phase block e ws) = chunk_table_start_position (ws ! 0)"
    by (simp add: table_phase_def Let_def write_chunk_table_def)
  show "calls (table_phase block e ws) = calls (last ws) @ [WriteChunkTable]"
    by (simp add: table_phase_def Let_def write_chunk_table_def)
  have "chunk_bytes (table_phase block e ws)
          = map (\<lambda>j. if j < length (concat ?ms) then concat ?ms ! j else block j)
              [0..<length (concat ?ms)]"
    by (simp add: table_phase_def Let_def write_chunk_table_def blk tl)
  also have "\<dots> = map (\<lambda>j. concat ?ms ! j) [0..<length (concat ?ms)]"
    by (rule map_cong) simp_all
  also have "\<dots> = concat ?ms" by (rule map_nth)
  finally show "chunk_bytes (table_phase block e ws) = concat (map chunk_bytes_message ws)" .
qed


subsection \<open>The writers keep count of their chunks\<close>

lemma counted_open [simp]: "counted (open_writer nil laz cs hdr tp)"
  by (simp add: counted_def open_writer_def)













subsection \<open>Serial equivalence\<close>

lemma grows_refl: "grows w w [] []"
  by (simp add: grows_def)

lemma grows_trans:
  "grows w w' bs cs \<Longrightarrow> grows w' w'' bs' cs' \<Longrightarrow> grows w w'' (bs @ bs') (cs @ cs')"
  by (simp add: grows_def)

lemma alignedD:
  assumes "aligned w v"
  shows "compress w = compress v" "chunk_size_of w = chunk_size_of v"
    "chunk_points w = chunk_points v"
    "tell w - chunk_start_position w = tell v - chunk_start_position v"
  using assms unfolding aligned_def by blast+

lemma chunk_coder_point:
  "chunk_coder e \<Longrightarrow> chunk_points w = chunk_points v \<Longrightarrow> point_bytes e w p = point_bytes e v p"
  unfolding chunk_coder_def by blast

lemma chunk_coder_done:
  "chunk_coder e \<Longrightarrow> chunk_points w = chunk_points v \<Longrightarrow> done_bytes e w = done_bytes e v"
  unfolding chunk_coder_def by blast

lemma chunk_coder_table:
  "chunk_coder e \<Longrightarrow> number_chunks w = number_chunks v \<Longrightarrow> chunk_bytes w = chunk_bytes v \<Longrightarrow>
   table_bytes e w = table_bytes e v"
  unfolding chunk_coder_def by blast

lemma tell_coder_done: "tell (coder_done e w) = tell w + int (length (done_bytes e w))"
  by (simp add: tell_def coder_done_def)

lemma close_chunk_grows:
  "grows w (close_chunk e w) (done_bytes e w)
     [word_of_int (tell w + int (length (done_bytes e w)) - chunk_start_position w)]"
  unfolding grows_def close_chunk_def table_entry_def tell_coder_done
  by (simp add: coder_done_def)

lemma close_chunk_together:
  assumes "chunk_coder e" "aligned w v"
  shows "\<exists>bs cs. grows w (close_chunk e w) bs cs \<and> grows v (close_chunk e v) bs cs"
proof -
  have d: "done_bytes e w = done_bytes e v"
    using assms(1) alignedD(3) [OF assms(2)] by (rule chunk_coder_done)
  have r: "tell w - chunk_start_position w = tell v - chunk_start_position v"
    using assms(2) by (rule alignedD)
  have eq: "tell w + int (length (done_bytes e w)) - chunk_start_position w
      = tell v + int (length (done_bytes e v)) - chunk_start_position v"
    unfolding d using r by linarith
  have "grows v (close_chunk e v) (done_bytes e w)
     [word_of_int (tell w + int (length (done_bytes e w)) - chunk_start_position w)]"
    unfolding eq unfolding d by (rule close_chunk_grows)
  with close_chunk_grows [of w e] show ?thesis by blast
qed

lemma tell_update [simp]:
  "tell (w\<lparr>chunk_points := cp\<rparr>) = tell w"
  "tell (w\<lparr>p_count := pc\<rparr>) = tell w"
  "tell (w\<lparr>calls := cl\<rparr>) = tell w"
  "tell (w\<lparr>chunk_start_position := cs\<rparr>) = tell w"
  by (simp_all add: tell_def)

lemma close_chunk_fields [simp]:
  "chunk_points (close_chunk e w) = chunk_points w"
  "compress (close_chunk e w) = compress w"
  "chunk_size_of (close_chunk e w) = chunk_size_of w"
  "p_count (close_chunk e w) = p_count w"
  "calls (close_chunk e w) = calls w"
  by (simp_all add: close_chunk_def table_entry_def coder_done_def)

lemma close_chunk_start: "chunk_start_position (close_chunk e w) = tell (close_chunk e w)"
  by (simp add: close_chunk_def table_entry_def coder_done_def tell_def)

lemma write_point_alt:
  "write_point e w p =
     (let w1 = (if compress w \<and> int (length (chunk_points w)) = chunk_size_of w
                then (close_chunk e w)\<lparr>chunk_points := []\<rparr> else w)
      in w1\<lparr>p_count := p_count w1 + 1,
            chunk_points := chunk_points w1 @ [p],
            out := out w1 @ point_bytes e w1 p,
            calls := calls w1 @ [WritePoint p]\<rparr>)"
  by (simp add: write_point_def close_chunk_def)

lemma aligned_reset_close:
  assumes "aligned w v"
  shows "aligned ((close_chunk e w)\<lparr>chunk_points := []\<rparr>) ((close_chunk e v)\<lparr>chunk_points := []\<rparr>)"
proof -
  have "tell ((close_chunk e w)\<lparr>chunk_points := []\<rparr>)
          - chunk_start_position ((close_chunk e w)\<lparr>chunk_points := []\<rparr>) = 0" for w :: "'a laswriter"
    by (simp add: close_chunk_start)
  then show ?thesis using alignedD(1-3) [OF assms] unfolding aligned_def by simp
qed

lemma write_point_plain_together:
  assumes "chunk_coder e" "aligned w v"
  shows "grows w (w\<lparr>p_count := a, chunk_points := chunk_points w @ [p],
                    out := out w @ point_bytes e w p, calls := c\<rparr>) (point_bytes e w p) []
       \<and> grows v (v\<lparr>p_count := a', chunk_points := chunk_points v @ [p],
                    out := out v @ point_bytes e v p, calls := c'\<rparr>) (point_bytes e w p) []
       \<and> aligned (w\<lparr>p_count := a, chunk_points := chunk_points w @ [p],
                    out := out w @ point_bytes e w p, calls := c\<rparr>)
                 (v\<lparr>p_count := a', chunk_points := chunk_points v @ [p],
                    out := out v @ point_bytes e v p, calls := c'\<rparr>)"
proof -
  note cp = alignedD(3) [OF assms(2)] and cm = alignedD(1) [OF assms(2)]
    and cs = alignedD(2) [OF assms(2)] and r = alignedD(4) [OF assms(2)]
  have d: "point_bytes e v p = point_bytes e w p"
    using assms(1) cp [symmetric] by (rule chunk_coder_point)
  have 1: "grows w (w\<lparr>p_count := a, chunk_points := chunk_points w @ [p],
                    out := out w @ point_bytes e w p, calls := c\<rparr>) (point_bytes e w p) []"
    by (simp add: grows_def)
  have 2: "grows v (v\<lparr>p_count := a', chunk_points := chunk_points v @ [p],
                    out := out v @ point_bytes e v p, calls := c'\<rparr>) (point_bytes e w p) []"
    by (simp add: grows_def d)
  have tw: "tell (w\<lparr>p_count := a, chunk_points := chunk_points w @ [p],
                    out := out w @ point_bytes e w p, calls := c\<rparr>)
              = tell w + int (length (point_bytes e w p))"
    by (simp add: tell_def)
  have tv: "tell (v\<lparr>p_count := a', chunk_points := chunk_points v @ [p],
                    out := out v @ point_bytes e v p, calls := c'\<rparr>)
              = tell v + int (length (point_bytes e w p))"
    by (simp add: tell_def d)
  have r': "tell w + int (length (point_bytes e w p)) - chunk_start_position w
          = tell v + int (length (point_bytes e w p)) - chunk_start_position v"
    using r by linarith
  have 3: "aligned (w\<lparr>p_count := a, chunk_points := chunk_points w @ [p],
                    out := out w @ point_bytes e w p, calls := c\<rparr>)
                 (v\<lparr>p_count := a', chunk_points := chunk_points v @ [p],
                    out := out v @ point_bytes e v p, calls := c'\<rparr>)"
    unfolding aligned_def tw tv by (simp add: cp cm cs r')
  from 1 2 3 show ?thesis by blast
qed

lemma grows_reset:
  "grows w w' bs cs \<Longrightarrow> grows w (w'\<lparr>chunk_points := x\<rparr>) bs cs"
  by (simp add: grows_def)

lemma write_point_together:
  assumes "chunk_coder e" "aligned w v"
  shows "\<exists>bs cs. grows w (write_point e w p) bs cs \<and> grows v (write_point e v p) bs cs
           \<and> aligned (write_point e w p) (write_point e v p)"
proof (cases "compress w \<and> int (length (chunk_points w)) = chunk_size_of w")
  case True
  with alignedD(1-3) [OF assms(2)]
  have Tv: "compress v \<and> int (length (chunk_points v)) = chunk_size_of v"
    by simp
  let ?w1 = "(close_chunk e w)\<lparr>chunk_points := []\<rparr>"
  let ?v1 = "(close_chunk e v)\<lparr>chunk_points := []\<rparr>"
  from close_chunk_together [OF assms] obtain bs cs where
    g: "grows w ?w1 bs cs" "grows v ?v1 bs cs"
    by (auto intro: grows_reset)
  have al: "aligned ?w1 ?v1" using assms(2) by (rule aligned_reset_close)
  note s = write_point_plain_together [OF assms(1) al, where a = "p_count ?w1 + 1" and p = p
      and c = "calls ?w1 @ [WritePoint p]" and a' = "p_count ?v1 + 1"
      and c' = "calls ?v1 @ [WritePoint p]"]
  have ww: "write_point e w p = ?w1\<lparr>p_count := p_count ?w1 + 1,
            chunk_points := chunk_points ?w1 @ [p],
            out := out ?w1 @ point_bytes e ?w1 p,
            calls := calls ?w1 @ [WritePoint p]\<rparr>"
    using True by (simp add: write_point_alt Let_def)
  have wv: "write_point e v p = ?v1\<lparr>p_count := p_count ?v1 + 1,
            chunk_points := chunk_points ?v1 @ [p],
            out := out ?v1 @ point_bytes e ?v1 p,
            calls := calls ?v1 @ [WritePoint p]\<rparr>"
    using Tv by (simp add: write_point_alt Let_def)
  from s g show ?thesis unfolding ww wv
    by (blast intro: grows_trans)
next
  case False
  with alignedD(1-3) [OF assms(2)]
  have Fv: "\<not> (compress v \<and> int (length (chunk_points v)) = chunk_size_of v)"
    by simp
  note s = write_point_plain_together [OF assms, where a = "p_count w + 1" and p = p
      and c = "calls w @ [WritePoint p]" and a' = "p_count v + 1"
      and c' = "calls v @ [WritePoint p]"]
  have ww: "write_point e w p = w\<lparr>p_count := p_count w + 1,
            chunk_points := chunk_points w @ [p],
            out := out w @ point_bytes e w p,
            calls := calls w @ [WritePoint p]\<rparr>"
    using False by (auto simp: write_point_alt Let_def)
  have wv: "write_point e v p = v\<lparr>p_count := p_count v + 1,
            chunk_points := chunk_points v @ [p],
            out := out v @ point_bytes e v p,
            calls := calls v @ [WritePoint p]\<rparr>"
    using Fv by (auto simp: write_point_alt Let_def)
  from s show ?thesis unfolding ww wv by blast
qed

lemma foldl_write_point_together:
  assumes "chunk_coder e" "aligned w v"
  shows "\<exists>bs cs. grows w (foldl (write_point e) w ps) bs cs
               \<and> grows v (foldl (write_point e) v ps) bs cs
               \<and> aligned (foldl (write_point e) w ps) (foldl (write_point e) v ps)"
  using assms(2)
proof (induction ps arbitrary: w v)
  case Nil
  then show ?case using grows_refl by fastforce
next
  case (Cons p ps)
  from write_point_together [OF assms(1) Cons.prems, of p] obtain bs cs where
    1: "grows w (write_point e w p) bs cs" "grows v (write_point e v p) bs cs"
       "aligned (write_point e w p) (write_point e v p)" by blast
  from Cons.IH [OF 1(3)] obtain bs' cs' where
    2: "grows (write_point e w p) (foldl (write_point e) (write_point e w p) ps) bs' cs'"
       "grows (write_point e v p) (foldl (write_point e) (write_point e v p) ps) bs' cs'"
       "aligned (foldl (write_point e) (write_point e w p) ps)
                (foldl (write_point e) (write_point e v p) ps)" by blast
  from grows_trans [OF 1(1) 2(1)] grows_trans [OF 1(2) 2(2)] 2(3)
  show ?case by auto
qed

text \<open>A segment: the points of a range written and the open chunk closed.\<close>

lemma segment_together:
  assumes "chunk_coder e" "aligned w v"
  shows "\<exists>bs cs. grows w (close_chunk e (foldl (write_point e) w ps)) bs cs
               \<and> grows v (close_chunk e (foldl (write_point e) v ps)) bs cs"
proof -
  from foldl_write_point_together [OF assms, of ps] obtain bs cs where
    1: "grows w (foldl (write_point e) w ps) bs cs" "grows v (foldl (write_point e) v ps) bs cs"
       "aligned (foldl (write_point e) w ps) (foldl (write_point e) v ps)" by blast
  from close_chunk_together [OF assms(1) 1(3)] obtain bs' cs' where
    2: "grows (foldl (write_point e) w ps) (close_chunk e (foldl (write_point e) w ps)) bs' cs'"
       "grows (foldl (write_point e) v ps) (close_chunk e (foldl (write_point e) v ps)) bs' cs'"
    by blast
  from grows_trans [OF 1(1) 2(1)] grows_trans [OF 1(2) 2(2)] show ?thesis by blast
qed

text \<open>A full chunk is closed by the next write.\<close>

lemma write_point_full:
  assumes "compress w" "int (length (chunk_points w)) = chunk_size_of w" "0 < chunk_size_of w"
  shows "write_point e w p = write_point e ((close_chunk e w)\<lparr>chunk_points := []\<rparr>) p"
  using assms by (simp add: write_point_alt Let_def)

text \<open>The number of points of the open chunk.\<close>

lemma write_point_chunk_length:
  assumes "compress w" "0 < chunk_size_of w"
  shows "length (chunk_points (write_point e w p))
           = (if int (length (chunk_points w)) = chunk_size_of w then 1
              else length (chunk_points w) + 1)"
  using assms by (simp add: write_point_alt Let_def)

lemma write_point_keeps [simp]:
  "chunk_size_of (write_point e w p) = chunk_size_of w"
  by (simp add: write_point_alt Let_def)

lemma foldl_write_point_keeps [simp]:
  "chunk_size_of (foldl (write_point e) w ps) = chunk_size_of w"
  "compress (foldl (write_point e) w ps) = compress w"
  by (induction ps arbitrary: w) simp_all

lemma foldl_chunk_length:
  assumes "compress w" "0 < chunk_size_of w" "chunk_points w = []"
  shows "length (chunk_points (foldl (write_point e) w ps))
           = (if ps = [] then 0 else (length ps - 1) mod nat (chunk_size_of w) + 1)"
proof (induction ps rule: rev_induct)
  case Nil
  then show ?case using assms by simp
next
  case (snoc p ps)
  let ?C = "nat (chunk_size_of w)"
  let ?W = "foldl (write_point e) w ps"
  have C: "0 < ?C" using assms(2) by simp
  have cw: "compress ?W" "0 < chunk_size_of ?W" using assms by simp_all
  show ?case
  proof (cases "ps = []")
    case True
    then show ?thesis using assms write_point_chunk_length [OF assms(1,2), of e p] by simp
  next
    case False
    then obtain m where m: "length ps = Suc m" by (cases ps) auto
    have ih: "length (chunk_points ?W) = m mod ?C + 1" using snoc.IH False m by simp
    have full: "(int (length (chunk_points ?W)) = chunk_size_of ?W) = (Suc (m mod ?C) = ?C)"
      using ih assms(2) by auto
    have "length (chunk_points (write_point e ?W p))
            = (if Suc (m mod ?C) = ?C then 1 else m mod ?C + 2)"
      using write_point_chunk_length [OF cw, of e p] full ih by simp
    also have "\<dots> = Suc m mod ?C + 1" by (simp add: mod_Suc)
    finally show ?thesis using m by simp
  qed
qed

lemma foldl_full_chunk:
  assumes "compress w" "0 < chunk_size_of w" "chunk_points w = []"
    and "ps \<noteq> []" "nat (chunk_size_of w) dvd length ps"
  shows "int (length (chunk_points (foldl (write_point e) w ps))) = chunk_size_of w"
proof -
  let ?C = "nat (chunk_size_of w)"
  from assms(4) obtain m where m: "length ps = Suc m" by (cases ps) auto
  from assms(5) m have "Suc m mod ?C = 0" by simp
  then have "Suc (m mod ?C) = ?C" using assms(2) by (simp add: mod_Suc split: if_splits)
  then show ?thesis using foldl_chunk_length [OF assms(1-3), of e ps] assms(2,4) m by simp
qed

lemma fresh_at_chunk_start: "at_chunk_start C (fresh_writer C)"
  by (simp add: at_chunk_start_def fresh_writer_def open_writer_def tell_def)

lemma at_chunk_start_aligned:
  "at_chunk_start C w \<Longrightarrow> at_chunk_start C v \<Longrightarrow> aligned w v"
  unfolding at_chunk_start_def aligned_def by simp

lemma growsD:
  assumes "grows w w' bs cs"
  shows "out w' = out w @ bs" "chunk_bytes w' = chunk_bytes w @ cs"
    "number_chunks w' = number_chunks w + of_nat (length cs)"
    "seek_pos w' = seek_pos w" "compress w' = compress w" "chunk_size_of w' = chunk_size_of w"
    "chunk_table_start_position w' = chunk_table_start_position w"
  using assms unfolding grows_def by blast+

lemma segment_grows:
  assumes "chunk_coder e" "at_chunk_start C w"
  shows "grows w (close_chunk e (foldl (write_point e) w seg))
           (segment_out e C seg) (segment_chunk_bytes e C seg)"
proof -
  have al: "aligned w (fresh_writer C)"
    using assms(2) fresh_at_chunk_start by (rule at_chunk_start_aligned)
  from segment_together [OF assms(1) al, of seg] obtain bs cs where
    1: "grows w (close_chunk e (foldl (write_point e) w seg)) bs cs"
    and 2: "grows (fresh_writer C) (close_chunk e (foldl (write_point e) (fresh_writer C) seg)) bs cs"
    by blast
  have "segment_out e C seg = bs"
    using growsD(1) [OF 2] by (simp add: segment_out_def fresh_writer_def open_writer_def)
  moreover have "segment_chunk_bytes e C seg = cs"
    using growsD(2) [OF 2] by (simp add: segment_chunk_bytes_def fresh_writer_def open_writer_def)
  ultimately show ?thesis using 1 by simp
qed

lemma reset_close_at_chunk_start:
  assumes "compress w" "chunk_size_of w = C"
  shows "at_chunk_start C ((close_chunk e w)\<lparr>chunk_points := []\<rparr>)"
  using assms by (simp add: at_chunk_start_def close_chunk_start)

lemma foldl_write_point_full:
  assumes "compress w" "int (length (chunk_points w)) = chunk_size_of w" "0 < chunk_size_of w"
    and "qs \<noteq> []"
  shows "foldl (write_point e) w qs
           = foldl (write_point e) ((close_chunk e w)\<lparr>chunk_points := []\<rparr>) qs"
proof -
  from assms(4) obtain q qs' where "qs = q # qs'" by (cases qs) auto
  then show ?thesis using write_point_full [OF assms(1-3), of e q] by simp
qed

lemma chain_grows:
  assumes "chunk_coder e" "0 < C"
  shows "at_chunk_start C w \<Longrightarrow> segs \<noteq> [] \<Longrightarrow> \<forall>s\<in>set segs. s \<noteq> [] \<Longrightarrow>
         \<forall>s\<in>set (butlast segs). nat C dvd length s \<Longrightarrow>
         grows w (close_chunk e (foldl (write_point e) w (concat segs)))
           (concat (map (segment_out e C) segs)) (concat (map (segment_chunk_bytes e C) segs))"
proof (induction segs arbitrary: w)
  case Nil
  then show ?case by simp
next
  case (Cons s segs)
  show ?case
  proof (cases "segs = []")
    case True
    then show ?thesis using segment_grows [OF assms(1) Cons.prems(1), of s] by simp
  next
    case False
    let ?W = "foldl (write_point e) w s"
    let ?R = "(close_chunk e ?W)\<lparr>chunk_points := []\<rparr>"
    from Cons.prems(1) have w: "compress w" "chunk_size_of w = C" "chunk_points w = []"
      unfolding at_chunk_start_def by blast+
    have s: "s \<noteq> []" "nat C dvd length s" using Cons.prems(3,4) False by simp_all
    have full: "int (length (chunk_points ?W)) = chunk_size_of ?W"
      using foldl_full_chunk [of w s e] w assms(2) s by simp
    have ne: "concat segs \<noteq> []"
    proof -
      from False obtain s' rest where "segs = s' # rest" by (cases segs) auto
      moreover with Cons.prems(3) have "s' \<noteq> []" by simp
      ultimately show ?thesis by simp
    qed
    have cW: "compress ?W" "chunk_size_of ?W = C" "0 < chunk_size_of ?W"
      using w assms(2) by simp_all
    have eq: "foldl (write_point e) w (concat (s # segs)) = foldl (write_point e) ?R (concat segs)"
      using foldl_write_point_full [OF cW(1) full cW(3) ne, of e] by simp
    have R: "at_chunk_start C ?R" using cW(1,2) by (rule reset_close_at_chunk_start)
    have ih: "grows ?R (close_chunk e (foldl (write_point e) ?R (concat segs)))
           (concat (map (segment_out e C) segs)) (concat (map (segment_chunk_bytes e C) segs))"
      using Cons.IH [OF R False] Cons.prems(3,4) False by simp
    have g1: "grows w ?R (segment_out e C s) (segment_chunk_bytes e C s)"
      using segment_grows [OF assms(1) Cons.prems(1), of s] by (rule grows_reset)
    from grows_trans [OF g1 ih] show ?thesis unfolding eq by simp
  qed
qed

lemma boundary_step:
  assumes "0 \<le> r"
  shows "boundary N C P (r + 1)
           = boundary N C P r + (N div C div P + (if r < (N div C) mod P then 1 else 0)) * C"
  using assms by (simp add: boundary_def algebra_simps min_def)

lemma range_boundary_points:
  assumes "0 \<le> N" "0 < C" "0 < P" "0 \<le> r" "r < P"
  shows "las_to_laz_points N C P r =
           \<lparr>point_start = range_boundary N C P r, point_end = range_boundary N C P (r + 1)\<rparr>"
proof (cases "r = P - 1")
  case True
  with las_to_laz_points_closed [OF assms] boundary_P [OF assms(1-3)] assms show ?thesis
    by (simp add: range_boundary_def)
next
  case False
  with las_to_laz_points_closed [OF assms] assms show ?thesis
    by (simp add: range_boundary_def)
qed

lemma range_boundary_0: "0 < P \<Longrightarrow> range_boundary N C P 0 = 0"
  by (simp add: range_boundary_def boundary_def)

lemma range_boundary_P: "range_boundary N C P P = N"
  by (simp add: range_boundary_def)

lemma range_boundary_dvd: "r \<noteq> P \<Longrightarrow> C dvd range_boundary N C P r"
  by (simp add: range_boundary_def boundary_def)

lemma range_boundary_strict:
  assumes "0 \<le> N" "0 < C" "0 < P" "0 \<le> r" "r < P" "ranges_not_empty N C P"
  shows "range_boundary N C P r < range_boundary N C P (r + 1)"
proof -
  let ?K = "N div C" let ?q = "N div C div P" let ?m = "(N div C) mod P"
  have K: "0 \<le> ?K" using assms by (simp add: pos_imp_zdiv_nonneg_iff)
  have q: "0 \<le> ?q" using K assms by (simp add: pos_imp_zdiv_nonneg_iff)
  have m: "0 \<le> ?m" "?m < P" using assms by simp_all
  have L: "0 \<le> N mod C" using assms by simp
  have step: "boundary N C P (r + 1) = boundary N C P r + (?q + (if r < ?m then 1 else 0)) * C"
    using assms(4) by (rule boundary_step)
  from assms(6) consider (many) "P \<le> ?K" | (few) "?K = P - 1" "0 < N mod C"
    unfolding ranges_not_empty_def by blast
  then show ?thesis
  proof cases
    case many
    have "P div P \<le> ?K div P" using many assms(3) by (rule zdiv_mono1)
    then have "1 \<le> ?q" using assms(3) by simp
    then have pos: "0 < (?q + (if r < ?m then 1 else 0)) * C" using assms(2) by simp
    show ?thesis
    proof (cases "r = P - 1")
      case True
      have "boundary N C P r < boundary N C P P" using step pos True by simp
      also have "\<dots> \<le> N" using boundary_P [OF assms(1-3)] L by linarith
      finally show ?thesis using True assms by (simp add: range_boundary_def)
    next
      case False
      with step pos assms show ?thesis by (simp add: range_boundary_def)
    qed
  next
    case few
    have h: "0 \<le> P - 1" "P - 1 < P" using assms(3) by simp_all
    have "(P - 1) div P = 0" using h by (rule div_pos_pos_trivial)
    moreover have "(P - 1) mod P = P - 1" using h by (rule mod_pos_pos_trivial)
    ultimately have q0: "?q = 0" and mK: "?m = P - 1" unfolding few(1) by blast+
    show ?thesis
    proof (cases "r = P - 1")
      case True
      have "boundary N C P P = boundary N C P r" using step True q0 mK by simp
      then have "boundary N C P r < N" using boundary_P [OF assms(1-3)] few(2) by linarith
      then show ?thesis using True assms by (simp add: range_boundary_def)
    next
      case False
      then have "r < ?m" using assms mK by simp
      then have "0 < (?q + (if r < ?m then 1 else 0)) * C" using q0 assms(2) by simp
      with step False assms show ?thesis by (simp add: range_boundary_def)
    qed
  qed
qed

lemma range_boundary_mono:
  assumes "0 \<le> N" "0 < C" "0 < P" "0 \<le> r" "r \<le> s" "s \<le> P"
  shows "range_boundary N C P r \<le> range_boundary N C P s"
proof (cases "s = P")
  case True
  have L: "0 \<le> N mod C" using assms by simp
  have "boundary N C P r \<le> boundary N C P P" using boundary_mono [OF assms(1-3)] assms by simp
  also have "\<dots> \<le> N" using boundary_P [OF assms(1-3)] L by linarith
  finally show ?thesis using True by (simp add: range_boundary_def)
next
  case False
  with assms have "r \<noteq> P" by simp
  with False boundary_mono [OF assms(1-3,5)] show ?thesis by (simp add: range_boundary_def)
qed

text \<open>The points of the ranges, one after the other, are the points of the file.\<close>

lemma concat_slices:
  fixes bn :: "nat \<Rightarrow> nat"
  assumes "\<And>r. r < n \<Longrightarrow> bn r \<le> bn (Suc r)" "bn 0 = 0"
  shows "concat (map (\<lambda>r. take (bn (Suc r) - bn r) (drop (bn r) pts)) [0..<n]) = take (bn n) pts"
  using assms(1)
proof (induction n)
  case 0
  then show ?case using assms(2) by simp
next
  case (Suc n)
  have "take (bn (Suc n)) pts = take (bn n) pts @ take (bn (Suc n) - bn n) (drop (bn n) pts)"
    using Suc.prems [of n] by (metis le_add_diff_inverse lessI take_add)
  with Suc show ?case by simp
qed

lemma pwrite_append: "pwrite f (int (length f)) bs = f @ bs"
  by (simp add: pwrite_def Let_def)

lemma pwrite_over: "pwrite (pre @ bs) (int (length pre)) (bs @ tb) = pre @ bs @ tb"
  by (simp add: pwrite_def Let_def)

lemma add_close:
  "add_chunk_to_table (enc_done e w)
     = (close_chunk e w)\<lparr>calls := calls w @ [EncDone, AddChunkToTable]\<rparr>"
  by (simp add: add_chunk_to_table_def enc_done_def close_chunk_def table_entry_def
      coder_done_def tell_def)

lemma grows_calls: "grows w w' bs cs \<Longrightarrow> grows w (w'\<lparr>calls := x\<rparr>) bs cs"
  by (simp add: grows_def)

lemma open_at_chunk_start: "at_chunk_start C (open_writer nil True C hdr tp)"
  by (simp add: at_chunk_start_def open_writer_def tell_def)

lemma seek_at_chunk_start:
  "at_chunk_start C
     ((stream_seek (open_writer nil True C hdr tp) off)
        \<lparr>chunk_start_position := tell (stream_seek (open_writer nil True C hdr tp) off)\<rparr>)"
  by (simp add: at_chunk_start_def open_writer_def stream_seek_def tell_def)

lemma sizing_pass_las:
  assumes "chunk_coder (enc job)" "\<not> laszip (lasreader job)"
  shows "snd (sizing_pass job rng)
           = int (length (segment_out (enc job) (chunk_size job) (written_points job rng)))"
proof -
  let ?w0 = "open_writer True True (chunk_size job) (header job) (table_pos job) :: 'a laswriter"
  let ?seg = "written_points job rng"
  let ?W = "close_chunk (enc job) (foldl (write_point (enc job)) ?w0 ?seg)"
  have p0: "p_count ?w0 = 0" by (simp add: open_writer_def)
  have g: "grows ?w0 ?W (segment_out (enc job) (chunk_size job) ?seg)
             (segment_chunk_bytes (enc job) (chunk_size job) ?seg)"
    using assms(1) open_at_chunk_start by (rule segment_grows)
  have t: "tell ?W = tell ?w0 + int (length (segment_out (enc job) (chunk_size job) ?seg))"
    using growsD(1,4) [OF g] by (simp add: tell_def)
  have "fst (sizing_pass job rng)
          = ?W\<lparr>calls := calls (foldl (write_point (enc job)) ?w0 ?seg) @ [EncDone, AddChunkToTable]\<rparr>"
    using assms(2) p0
    by (simp add: sizing_pass_def Let_def encode_loop_fold written_points_def add_close)
  moreover have "snd (sizing_pass job rng) = tell (fst (sizing_pass job rng)) - tell ?w0"
    by (simp add: sizing_pass_def Let_def)
  ultimately show ?thesis using t by simp
qed

lemma final_pass_las:
  assumes "chunk_coder (enc job)" "\<not> laszip (lasreader job)"
  shows "grows
           ((stream_seek (open_writer False True (chunk_size job) (header job) (table_pos job))
               (write_point_offset (header_end job) all rank))
             \<lparr>chunk_start_position := write_point_offset (header_end job) all rank\<rparr>)
           (fst (final_pass job rng all rank))
           (segment_out (enc job) (chunk_size job) (written_points job rng))
           (segment_chunk_bytes (enc job) (chunk_size job) (written_points job rng))"
proof -
  let ?w0 = "open_writer False True (chunk_size job) (header job) (table_pos job) :: 'a laswriter"
  let ?off = "write_point_offset (header_end job) all rank"
  let ?F = "(stream_seek ?w0 ?off)\<lparr>chunk_start_position := tell (stream_seek ?w0 ?off)\<rparr>"
  let ?seg = "written_points job rng"
  let ?W = "close_chunk (enc job) (foldl (write_point (enc job)) ?F ?seg)"
  have ts: "tell (stream_seek ?w0 ?off) = ?off" by (simp add: stream_seek_def tell_def)
  have p0: "p_count ?F = 0" by (simp add: open_writer_def stream_seek_def)
  have g: "grows ?F ?W (segment_out (enc job) (chunk_size job) ?seg)
             (segment_chunk_bytes (enc job) (chunk_size job) ?seg)"
    using assms(1) seek_at_chunk_start by (rule segment_grows)
  have "fst (final_pass job rng all rank)
          = ?W\<lparr>calls := calls (foldl (write_point (enc job)) ?F ?seg) @ [EncDone, AddChunkToTable]\<rparr>"
    using assms(2) p0
    by (simp add: final_pass_def Let_def encode_loop_fold written_points_def add_close
        header_end_def)
  with grows_calls [OF g] show ?thesis unfolding ts by simp
qed

lemma final_writer_las:
  assumes "chunk_coder (enc job)" "\<not> laszip (lasreader job)"
  shows "out (fst (final_pass job rng all rank))
           = segment_out (enc job) (chunk_size job) (written_points job rng)"
    and "chunk_bytes (fst (final_pass job rng all rank))
           = segment_chunk_bytes (enc job) (chunk_size job) (written_points job rng)"
    and "number_chunks (fst (final_pass job rng all rank))
           = of_nat (length (segment_chunk_bytes (enc job) (chunk_size job) (written_points job rng)))"
    and "seek_pos (fst (final_pass job rng all rank)) = write_point_offset (header_end job) all rank"
    and "chunk_table_start_position (fst (final_pass job rng all rank)) = table_pos job"
  using growsD [OF final_pass_las [OF assms, of all rank rng]]
  by (simp_all add: stream_seek_def open_writer_def)

lemma fold_pwrite:
  "(\<And>i. i < length xs \<Longrightarrow>
      seek_pos (xs ! i) = int (length f) + int (length (concat (map out (take i xs))))) \<Longrightarrow>
   fold (\<lambda>w f. pwrite f (seek_pos w) (out w)) xs f = f @ concat (map out xs)"
proof (induction xs arbitrary: f)
  case Nil
  then show ?case by simp
next
  case (Cons x xs)
  have x: "seek_pos x = int (length f)" using Cons.prems [of 0] by simp
  have "seek_pos (xs ! i) = int (length (f @ out x)) + int (length (concat (map out (take i xs))))"
    if "i < length xs" for i
    using Cons.prems [of "Suc i"] that by simp
  from Cons.IH [OF this] show ?case by (simp add: x pwrite_append)
qed

lemma int_length_concat:
  "int (length (concat (map f xs))) = sum_list (map (\<lambda>x. int (length (f x))) xs)"
  by (induction xs) simp_all

lemma of_nat_length_concat:
  "(of_nat (length (concat (map f xs))) :: u32) = sum_list (map (\<lambda>x. of_nat (length (f x))) xs)"
  by (induction xs) simp_all

lemma collect_map_Inr:
  "(\<And>x. x \<in> set xs \<Longrightarrow> f x = Inr (g x)) \<Longrightarrow> collect (map f xs) = Inr (map g xs)"
  by (induction xs) simp_all

lemma map_nth_upt: "map (\<lambda>r. f (xs ! r)) [0..<length xs] = map f xs"
  by (rule nth_equalityI) simp_all

lemma final_writers_cohort:
  "map final_writer (peers (cohort job ranges))
     = map (\<lambda>r. fst (final_pass job (ranges ! r) (map (\<lambda>g. snd (sizing_pass job g)) ranges) (int r)))
         [0..<length ranges]"
  by (simp add: cohort_def Let_def comp_def)

lemma cohort_field:
  assumes "\<And>rng all rank. fld (fst (final_pass job rng all rank)) = g rng"
  shows "map (\<lambda>pr. fld (final_writer pr)) (peers (cohort job ranges)) = map g ranges"
  by (rule nth_equalityI) (simp_all add: nth_peers_cohort assms)

lemma cohort_outs:
  assumes "chunk_coder (enc job)" "\<not> laszip (lasreader job)"
  shows "map (\<lambda>pr. out (final_writer pr)) (peers (cohort job ranges)) = segment_outs job ranges"
    and "map (\<lambda>pr. chunk_bytes (final_writer pr)) (peers (cohort job ranges))
           = segment_tables job ranges"
    and "map (\<lambda>pr. number_chunks (final_writer pr)) (peers (cohort job ranges))
           = map (\<lambda>cs. of_nat (length cs)) (segment_tables job ranges)"
    and "map (\<lambda>pr. chunk_table_start_position (final_writer pr)) (peers (cohort job ranges))
           = map (\<lambda>g. table_pos job) ranges"
proof -
  show "map (\<lambda>pr. out (final_writer pr)) (peers (cohort job ranges)) = segment_outs job ranges"
    unfolding segment_outs_def by (rule cohort_field) (rule final_writer_las [OF assms])
  show "map (\<lambda>pr. chunk_bytes (final_writer pr)) (peers (cohort job ranges))
           = segment_tables job ranges"
    unfolding segment_tables_def by (rule cohort_field) (rule final_writer_las [OF assms])
  have "map (\<lambda>pr. number_chunks (final_writer pr)) (peers (cohort job ranges))
          = map (\<lambda>g. of_nat (length (segment_chunk_bytes (enc job) (chunk_size job)
                                  (written_points job g)))) ranges"
    by (rule cohort_field) (rule final_writer_las [OF assms])
  then show "map (\<lambda>pr. number_chunks (final_writer pr)) (peers (cohort job ranges))
           = map (\<lambda>cs. of_nat (length cs)) (segment_tables job ranges)"
    by (simp add: segment_tables_def comp_def)
  show "map (\<lambda>pr. chunk_table_start_position (final_writer pr)) (peers (cohort job ranges))
           = map (\<lambda>g. table_pos job) ranges"
    by (rule cohort_field) (rule final_writer_las [OF assms])
qed

lemma cohort_seek_pos:
  assumes "chunk_coder (enc job)" "\<not> laszip (lasreader job)" "i < length ranges"
    and "int (length (header job)) + int (length (concat (segment_outs job ranges))) < 2 ^ 63"
  shows "seek_pos (final_writer (peers (cohort job ranges) ! i))
           = int (length (header job)) + int (length (concat (take i (segment_outs job ranges))))"
proof -
  let ?all = "map (\<lambda>g. snd (sizing_pass job g)) ranges"
  have all: "?all = map (\<lambda>x. int (length x)) (segment_outs job ranges)"
    by (simp add: segment_outs_def sizing_pass_las [OF assms(1,2)] comp_def)
  have "seek_pos (final_writer (peers (cohort job ranges) ! i))
          = write_point_offset (header_end job) ?all (int i)"
    using assms(3) by (simp add: nth_peers_cohort final_writer_las [OF assms(1,2)])
  also have "\<dots> = header_end job + sum_list (take i ?all)"
  proof -
    have n: "nat (int i) \<le> length ?all" using assms(3) by simp
    have nn: "\<forall>x\<in>set ?all. 0 \<le> x" by (auto simp: sizing_count_nonneg)
    have "0 \<le> header_end job" by (simp add: header_end_eq)
    then have lo: "- (2 ^ 63) \<le> header_end job" by simp
    have "sum_list ?all = int (length (concat (map (\<lambda>x. x) (segment_outs job ranges))))"
      unfolding all int_length_concat ..
    then have hi: "header_end job + sum_list ?all < 2 ^ 63"
      using assms(4) by (simp add: header_end_eq)
    from write_point_offset_eq [OF n nn lo hi] show ?thesis by simp
  qed
  also have "sum_list (take i ?all)
               = int (length (concat (map (\<lambda>x. x) (take i (segment_outs job ranges)))))"
    unfolding all int_length_concat by (simp add: take_map)
  finally show ?thesis by (simp add: header_end_eq)
qed

lemma cohort_file:
  assumes "chunk_coder (enc job)" "\<not> laszip (lasreader job)"
    and "int (length (header job)) + int (length (concat (segment_outs job ranges))) < 2 ^ 63"
  shows "fold (\<lambda>pr f. pwrite f (seek_pos (final_writer pr)) (out (final_writer pr)))
           (peers (cohort job ranges)) (header job)
         = header job @ concat (segment_outs job ranges)"
proof -
  let ?fws = "map final_writer (peers (cohort job ranges))"
  have mo: "map out ?fws = segment_outs job ranges"
    using cohort_outs(1) [OF assms(1,2), of ranges] by (simp add: comp_def)
  have "fold (\<lambda>pr f. pwrite f (seek_pos (final_writer pr)) (out (final_writer pr)))
           (peers (cohort job ranges)) (header job)
          = fold (\<lambda>w f. pwrite f (seek_pos w) (out w)) ?fws (header job)"
    by (simp add: fold_map comp_def)
  also have "\<dots> = header job @ concat (map out ?fws)"
  proof (rule fold_pwrite)
    fix i assume "i < length ?fws"
    then have i: "i < length ranges" by simp
    have "take i (map out ?fws) = take i (segment_outs job ranges)" by (simp only: mo)
    then show "seek_pos (?fws ! i)
             = int (length (header job)) + int (length (concat (map out (take i ?fws))))"
      using cohort_seek_pos [OF assms(1,2) i assms(3)] i by (simp add: take_map)
  qed
  finally show ?thesis by (simp only: mo)
qed

lemma write_chunk_table_fields [simp]:
  "number_chunks (write_chunk_table e w) = number_chunks w"
  "chunk_bytes (write_chunk_table e w) = chunk_bytes w"
  "seek_pos (write_chunk_table e w) = seek_pos w"
  "out (write_chunk_table e w) = out w @ table_bytes e w"
  by (simp_all add: write_chunk_table_def)

lemma table_phase_out:
  assumes "chunk_coder e"
  shows "out (table_phase b e ws) = out (last ws) @ table_bytes e (table_phase b e ws)"
    and "seek_pos (table_phase b e ws) = seek_pos (last ws)"
proof -
  let ?X = "(last ws)\<lparr>chunk_table_start_position := chunk_table_start_position (ws ! 0),
              number_chunks := number_chunks_total (map number_chunks ws),
              chunk_bytes := map (chunk_table_block b ws)
                 [0..<unat (number_chunks_total (map number_chunks ws))]\<rparr>"
  have tp: "table_phase b e ws = write_chunk_table e ?X"
    by (simp add: table_phase_def Let_def)
  have "table_bytes e ?X = table_bytes e (write_chunk_table e ?X)"
    using assms by (rule chunk_coder_table) simp_all
  then show "out (table_phase b e ws) = out (last ws) @ table_bytes e (table_phase b e ws)"
    unfolding tp by simp
  show "seek_pos (table_phase b e ws) = seek_pos (last ws)"
    unfolding tp by simp
qed

lemma length_le_concat: "cs \<in> set css \<Longrightarrow> length cs \<le> length (concat css)"
  by (induction css) auto

lemma cohort_table:
  assumes cc: "chunk_coder (enc job)" and las: "\<not> laszip (lasreader job)"
    and ne: "ranges \<noteq> []"
    and small: "length (concat (segment_tables job ranges)) < 2 ^ 32"
  shows "chunk_bytes (table_phase (heap job) (enc job) (map final_writer (peers (cohort job ranges))))
           = concat (segment_tables job ranges)"
    and "number_chunks (table_phase (heap job) (enc job) (map final_writer (peers (cohort job ranges))))
           = of_nat (length (concat (segment_tables job ranges)))"
proof -
  let ?fws = "map final_writer (peers (cohort job ranges))"
  let ?T = "table_phase (heap job) (enc job) ?fws"
  have cb: "map chunk_bytes ?fws = segment_tables job ranges"
    using cohort_outs(2) [OF cc las, of ranges] by (simp add: comp_def)
  have nc: "map number_chunks ?fws = map (\<lambda>cs. of_nat (length cs)) (segment_tables job ranges)"
    using cohort_outs(3) [OF cc las, of ranges] by (simp add: comp_def)
  have un: "unat (of_nat (length cs) :: u32) = length cs" if "cs \<in> set (segment_tables job ranges)" for cs
  proof -
    have "length cs < 2 ^ 32" using length_le_concat [OF that] small by simp
    then show ?thesis by (simp add: unat_of_nat)
  qed
  have nu: "map (\<lambda>w. unat (number_chunks w)) ?fws = map length (segment_tables job ranges)"
  proof -
    have "map (\<lambda>w. unat (number_chunks w)) ?fws = map unat (map number_chunks ?fws)"
      by (simp add: comp_def)
    also have "\<dots> = map (\<lambda>cs. unat (of_nat (length cs) :: u32)) (segment_tables job ranges)"
      unfolding nc by (simp add: comp_def)
    also have "\<dots> = map length (segment_tables job ranges)"
      by (rule map_cong) (simp_all add: un)
    finally show ?thesis .
  qed
  have len: "length ?fws = length (segment_tables job ranges)"
    by (simp add: segment_tables_def)
  have pw: "unat (number_chunks (?fws ! i)) = length (chunk_bytes (?fws ! i))"
    if "i < length ?fws" for i
  proof -
    have "unat (number_chunks (?fws ! i)) = map (\<lambda>w. unat (number_chunks w)) ?fws ! i"
      using that by (simp del: map_map)
    also have "\<dots> = length (segment_tables job ranges ! i)"
      unfolding nu using that len by simp
    also have "\<dots> = length (map chunk_bytes ?fws ! i)" unfolding cb ..
    finally show ?thesis using that by (simp del: map_map)
  qed
  have ne': "?fws \<noteq> []" using ne by (simp add: cohort_def Let_def)
  have nowrap: "(\<Sum>w\<leftarrow>?fws. unat (number_chunks w)) < 2 ^ 32"
    unfolding nu using small by (simp add: length_concat)
  have filled: "\<forall>w\<in>set ?fws. unat (number_chunks w) \<le> length (chunk_bytes w)"
    using pw by (auto simp: in_set_conv_nth simp del: map_map)
  note t = table_phase_assembly [OF ne' nowrap filled, of "heap job" "enc job"]
  have msg: "map chunk_bytes_message ?fws = map chunk_bytes ?fws"
  proof (rule nth_equalityI)
    show "length (map chunk_bytes_message ?fws) = length (map chunk_bytes ?fws)" by simp
  next
    fix i assume "i < length (map chunk_bytes_message ?fws)"
    then have i: "i < length ?fws" by simp
    then show "map chunk_bytes_message ?fws ! i = map chunk_bytes ?fws ! i"
      using pw [OF i] by (simp add: chunk_bytes_message_def del: map_map)
  qed
  show "chunk_bytes ?T = concat (segment_tables job ranges)"
    using t(2) unfolding msg cb .
  have "unat (number_chunks ?T) = length (concat (segment_tables job ranges))"
    using t(1) unfolding nu by (simp add: length_concat)
  then have "of_nat (unat (number_chunks ?T)) = (of_nat (length (concat (segment_tables job ranges))) :: u32)"
    by simp
  then show "number_chunks ?T = of_nat (length (concat (segment_tables job ranges)))"
    by simp
qed

lemma las_ranges:
  assumes "\<not> laszip (lasreader job)" "0 < chunk_size job" "0 < process_count job"
  shows "p_laszip job
           = Inr (cohort job
               (map (\<lambda>r. las_to_laz_points (npoints (lasreader job)) (chunk_size job)
                           (process_count job) (int r))
                  [0..<nat (process_count job)]))"
proof -
  have "collect (map (\<lambda>r. peer_range (laszip (lasreader job)) (npoints (lasreader job))
                           (chunk_size job) (process_count job) (int r))
                  [0..<nat (process_count job)])
          = Inr (map (\<lambda>r. las_to_laz_points (npoints (lasreader job)) (chunk_size job)
                           (process_count job) (int r))
                  [0..<nat (process_count job)])"
    using assms by (intro collect_map_Inr) (simp add: peer_range_def las_to_laz_range_def)
  then show ?thesis by (simp add: p_laszip_def Let_def)
qed

lemma segments_of_ranges:
  assumes N: "npoints (lasreader job) = int (length (points (lasreader job)))"
    and C: "0 < chunk_size job" and P: "0 < process_count job"
    and ne: "ranges_not_empty (npoints (lasreader job)) (chunk_size job) (process_count job)"
  defines "ranges \<equiv> map (\<lambda>r. las_to_laz_points (npoints (lasreader job)) (chunk_size job)
                           (process_count job) (int r)) [0..<nat (process_count job)]"
  shows "concat (map (written_points job) ranges) = points (lasreader job)"
    and "\<forall>s\<in>set (map (written_points job) ranges). s \<noteq> []"
    and "\<forall>s\<in>set (butlast (map (written_points job) ranges)). nat (chunk_size job) dvd length s"
    and "ranges \<noteq> []"
proof -
  let ?N = "npoints (lasreader job)" let ?C = "chunk_size job" let ?P = "process_count job"
  let ?pts = "points (lasreader job)"
  define bn where "bn r = nat (range_boundary ?N ?C ?P (int r))" for r
  have N0: "0 \<le> ?N" using N by simp
  have rb0: "0 \<le> range_boundary ?N ?C ?P (int r)" if "r \<le> nat ?P" for r
    using range_boundary_mono [OF N0 C P, of 0 "int r"] that P range_boundary_0 [OF P, of ?N ?C]
    by simp
  have rbN: "range_boundary ?N ?C ?P (int r) \<le> ?N" if "r \<le> nat ?P" for r
    using range_boundary_mono [OF N0 C P, of "int r" ?P] that P
    by (simp add: range_boundary_P)
  have strict: "range_boundary ?N ?C ?P (int r) < range_boundary ?N ?C ?P (int r + 1)"
    if "r < nat ?P" for r
    using range_boundary_strict [OF N0 C P _ _ ne, of "int r"] that by simp
  have bn_strict: "bn r < bn (Suc r)" if "r < nat ?P" for r
    using strict [OF that] rb0 [of r] that by (simp add: bn_def add.commute)
  have bn_le: "bn r \<le> length ?pts" if "r \<le> nat ?P" for r
    using rbN [OF that] N by (simp add: bn_def)
  have bn0: "bn 0 = 0" using range_boundary_0 [OF P] by (simp add: bn_def)
  have bnP: "bn (nat ?P) = length ?pts"
    using P N by (simp add: bn_def range_boundary_P)
  have seg: "written_points job (ranges ! r) = take (bn (Suc r) - bn r) (drop (bn r) ?pts)"
    if "r < nat ?P" for r
  proof -
    have rng: "ranges ! r = \<lparr>point_start = range_boundary ?N ?C ?P (int r),
                            point_end = range_boundary ?N ?C ?P (int r + 1)\<rparr>"
      using that range_boundary_points [OF N0 C P, of "int r"] by (simp add: ranges_def)
    have d: "nat (range_boundary ?N ?C ?P (int r + 1) - range_boundary ?N ?C ?P (int r))
               = bn (Suc r) - bn r"
      using rb0 [of r] strict [OF that] that
      by (simp add: bn_def nat_diff_distrib add.commute)
    show ?thesis
      using strict [OF that] d
      by (simp add: rng written_points_def loop_points_def reader_seek_def bn_def)
  qed
  have len: "length ranges = nat ?P" by (simp add: ranges_def)
  have segs: "map (written_points job) ranges
                = map (\<lambda>r. take (bn (Suc r) - bn r) (drop (bn r) ?pts)) [0..<nat ?P]"
    by (rule nth_equalityI) (simp_all add: len seg)
  have "concat (map (written_points job) ranges) = take (bn (nat ?P)) ?pts"
    unfolding segs using bn_strict bn0 by (intro concat_slices) (simp_all add: less_imp_le)
  then show "concat (map (written_points job) ranges) = ?pts" by (simp add: bnP)
  have seg_len: "length (take (bn (Suc r) - bn r) (drop (bn r) ?pts)) = bn (Suc r) - bn r"
    if "r < nat ?P" for r
    using bn_le [of "Suc r"] that by simp
  show "\<forall>s\<in>set (map (written_points job) ranges). s \<noteq> []"
  proof
    fix s assume "s \<in> set (map (written_points job) ranges)"
    then obtain r where r: "r < nat ?P" and s: "s = take (bn (Suc r) - bn r) (drop (bn r) ?pts)"
      unfolding segs by auto
    have "0 < length s" unfolding s seg_len [OF r] using bn_strict [OF r] by simp
    then show "s \<noteq> []" by simp
  qed
  show "\<forall>s\<in>set (butlast (map (written_points job) ranges)). nat ?C dvd length s"
  proof
    fix s assume "s \<in> set (butlast (map (written_points job) ranges))"
    then have "s \<in> set (map (\<lambda>r. take (bn (Suc r) - bn r) (drop (bn r) ?pts)) [0..<nat ?P - 1])"
      unfolding segs by (simp add: butlast_conv_take take_map)
    then obtain r where r: "r < nat ?P - 1" and s: "s = take (bn (Suc r) - bn r) (drop (bn r) ?pts)"
      by auto
    then have r': "r < nat ?P" by simp
    have d1: "?C dvd range_boundary ?N ?C ?P (int r)"
      using r' by (intro range_boundary_dvd) simp
    have d2: "?C dvd range_boundary ?N ?C ?P (int (Suc r))"
      using r by (intro range_boundary_dvd) linarith
    have n1: "nat ?C dvd bn r"
      using d1 C rb0 [of r] r' unfolding bn_def by (simp add: nat_dvd_iff)
    have n2: "nat ?C dvd bn (Suc r)"
      using d2 C rb0 [of "Suc r"] r' unfolding bn_def by (simp add: nat_dvd_iff)
    show "nat ?C dvd length s" unfolding s seg_len [OF r'] using n1 n2 by (rule dvd_diff_nat [rotated])
  qed
  show "ranges \<noteq> []" using P by (simp add: ranges_def)
qed

lemma serial_reference_grows:
  assumes cc: "chunk_coder (enc job)" and C: "0 < chunk_size job"
    and cat: "concat (map (written_points job) ranges) = points (lasreader job)"
    and ne: "\<forall>s\<in>set (map (written_points job) ranges). s \<noteq> []"
    and dv: "\<forall>s\<in>set (butlast (map (written_points job) ranges)). nat (chunk_size job) dvd length s"
    and rs: "ranges \<noteq> []"
  shows "out (serial_reference job)
           = header job @ concat (segment_outs job ranges) @ table_bytes (enc job) (serial_reference job)"
    and "chunk_bytes (serial_reference job) = concat (segment_tables job ranges)"
    and "number_chunks (serial_reference job) = of_nat (length (concat (segment_tables job ranges)))"
    and "seek_pos (serial_reference job) = 0"
proof -
  let ?e = "enc job" let ?C = "chunk_size job"
  let ?w0 = "open_writer False True ?C (header job) (table_pos job) :: 'a laswriter"
  let ?segs = "map (written_points job) ranges"
  let ?W = "foldl (write_point ?e) ?w0 (points (lasreader job))"
  have so: "concat (map (segment_out ?e ?C) ?segs) = concat (segment_outs job ranges)"
    by (simp add: segment_outs_def comp_def)
  have st: "concat (map (segment_chunk_bytes ?e ?C) ?segs) = concat (segment_tables job ranges)"
    by (simp add: segment_tables_def comp_def)
  have sn: "?segs \<noteq> []" using rs by simp
  have g: "grows ?w0 (close_chunk ?e ?W) (concat (segment_outs job ranges))
             (concat (segment_tables job ranges))"
    using chain_grows [OF cc C open_at_chunk_start sn ne dv, of False "header job" "table_pos job"]
    unfolding cat so st .
  have pts: "points (lasreader job) \<noteq> []"
  proof -
    from rs obtain g gs where "ranges = g # gs" by (cases ranges) auto
    with ne cat show ?thesis by auto
  qed
  have "length (chunk_points ?W) \<noteq> 0"
    using foldl_chunk_length [of ?w0 ?e "points (lasreader job)"] C pts
    by (simp add: open_writer_def)
  then have cp: "chunk_points ?W \<noteq> []" by simp
  have sr: "serial_reference job = write_chunk_table ?e (close_chunk ?e ?W)"
    using cp by (simp add: serial_reference_def Let_def)
  have tb: "table_bytes ?e (close_chunk ?e ?W) = table_bytes ?e (serial_reference job)"
    unfolding sr using cc by (rule chunk_coder_table) simp_all
  show "out (serial_reference job)
           = header job @ concat (segment_outs job ranges) @ table_bytes (enc job) (serial_reference job)"
    using growsD(1) [OF g] tb unfolding sr by (simp add: open_writer_def)
  show "chunk_bytes (serial_reference job) = concat (segment_tables job ranges)"
    using growsD(2) [OF g] unfolding sr by (simp add: open_writer_def)
  show "number_chunks (serial_reference job) = of_nat (length (concat (segment_tables job ranges)))"
    using growsD(3) [OF g] unfolding sr by (simp add: open_writer_def)
  show "seek_pos (serial_reference job) = 0"
    using growsD(4) [OF g] unfolding sr by (simp add: open_writer_def)
qed

lemma example_ranges_empty:
  "p_laszip (example_job e False 2 1 [])
     = Inr (cohort (example_job e False 2 1 []) [\<lparr>point_start = 0, point_end = 0\<rparr>])"
  by (simp add: p_laszip_def example_job_def peer_range_def las_to_laz_range_def
      las_to_laz_points_def all_process_chunks_def Let_def signed_divide_int_def
      signed_modulo_int_def eval_nat_numeral upt_rec)

text \<open>
  Claim C5 says that the file of the parallel run is the file of the serial encoder for
  any valid LAS input, and with one rank for any input. On the LAS input with no point
  and one rank, the rank closes the coder and records a chunk after its loop (lines 927
  to 931 are not guarded by the number of points): the file holds the header, the byte of
  the closed coder and a table of one chunk, 15 bytes, where the serial encoder writes
  the header and a table of no chunk, 10 bytes.
\<close>

theorem serial_equivalence_empty_input:
  "p_laszip (example_job example_encoder False 2 1 [])
     = Inr (cohort (example_job example_encoder False 2 1 []) [\<lparr>point_start = 0, point_end = 0\<rparr>])
   \<and> length (output_file (example_job example_encoder False 2 1 [])
         (cohort (example_job example_encoder False 2 1 []) [\<lparr>point_start = 0, point_end = 0\<rparr>]))
       = 15
   \<and> length (out (serial_reference (example_job example_encoder False 2 1 []))) = 10
   \<and> map_option (\<lambda>T. length (chunk_bytes T))
         (table_writer (cohort (example_job example_encoder False 2 1 [])
            [\<lparr>point_start = 0, point_end = 0\<rparr>])) = Some 1
   \<and> chunk_bytes (serial_reference (example_job example_encoder False 2 1 [])) = []
   \<and> output_file (example_job example_encoder False 2 1 [])
         (cohort (example_job example_encoder False 2 1 []) [\<lparr>point_start = 0, point_end = 0\<rparr>])
       \<noteq> out (serial_reference (example_job example_encoder False 2 1 []))"
proof -
  let ?J = "example_job example_encoder False 2 1 []"
  let ?res = "cohort ?J [\<lparr>point_start = 0, point_end = 0\<rparr>]"
  have a: "length (output_file ?J ?res) = 15" by code_simp
  have b: "length (out (serial_reference ?J)) = 10" by code_simp
  have c: "map_option (\<lambda>T. length (chunk_bytes T)) (table_writer ?res) = Some 1" by code_simp
  have d: "chunk_bytes (serial_reference ?J) = []" by code_simp
  from a b have e: "output_file ?J ?res \<noteq> out (serial_reference ?J)" by auto
  from example_ranges_empty [of example_encoder] a b c d e show ?thesis by blast
qed

text \<open>
  Claim C5, amended. In the LAS to LAZ direction, for an input whose ranges are all
  non-empty (at least as many whole chunks as ranks, or one chunk less and trailing
  points), a coder that codes every chunk on its own, fewer than \<open>2 ^ 32\<close> chunks and
  a file of fewer than \<open>2 ^ 63\<close> bytes, the file of the parallel run is the file of the
  serial reference encoder: the same header, the bytes of the final passes in rank
  order equal to the compressed bytes of the serial run, and the same chunk table (chunk
  count, byte counts and table bytes) at the same position. With one rank every input
  with at least one point is such an input.
\<close>

theorem serial_equivalence:
  assumes las: "\<not> laszip (lasreader job)"
    and C: "0 < chunk_size job" and P: "0 < process_count job"
    and N: "npoints (lasreader job) = int (length (points (lasreader job)))"
    and ne: "ranges_not_empty (npoints (lasreader job)) (chunk_size job) (process_count job)"
    and cc: "chunk_coder (enc job)"
    and small: "length (chunk_bytes (serial_reference job)) < 2 ^ 32"
    and big: "int (length (out (serial_reference job))) < 2 ^ 63"
  shows "\<exists>res T. p_laszip job = Inr res \<and> table_writer res = Some T
           \<and> output_file job res = out (serial_reference job)
           \<and> concat (map (\<lambda>pr. out (final_writer pr)) (peers res)) @ table_bytes (enc job) T
               = drop (length (header job)) (out (serial_reference job))
           \<and> number_chunks T = number_chunks (serial_reference job)
           \<and> chunk_bytes T = chunk_bytes (serial_reference job)
           \<and> tell T = tell (serial_reference job)"
proof -
  let ?e = "enc job"
  define ranges where "ranges = map (\<lambda>r. las_to_laz_points (npoints (lasreader job)) (chunk_size job)
                           (process_count job) (int r)) [0..<nat (process_count job)]"
  let ?res = "cohort job ranges"
  let ?fws = "map final_writer (peers ?res)"
  let ?T = "table_phase (heap job) ?e ?fws"
  let ?outs = "segment_outs job ranges"
  note sg = segments_of_ranges [OF N C P ne, folded ranges_def]
  note sr = serial_reference_grows [OF cc C sg]
  have run: "p_laszip job = Inr ?res"
    using las_ranges [OF las C P] by (simp add: ranges_def)
  have tw: "table_writer ?res = Some ?T"
    using las sg(4) by (simp add: table_writer_cohort)
  have small': "length (concat (segment_tables job ranges)) < 2 ^ 32"
    using small unfolding sr(2) .
  note ct = cohort_table [OF cc las sg(4) small']
  have "length (header job) + length (concat (segment_outs job ranges))
          \<le> length (out (serial_reference job))"
    unfolding sr(1) by simp
  with big have big': "int (length (header job)) + int (length (concat (segment_outs job ranges)))
                         < 2 ^ 63"
    by linarith
  have tbl: "table_bytes ?e ?T = table_bytes ?e (serial_reference job)"
    using cc by (rule chunk_coder_table) (simp_all add: ct sr)
  have on: "?outs \<noteq> []" using sg(4) by (simp add: segment_outs_def)
  have lf: "last ?fws = final_writer (peers ?res ! (length ranges - 1))"
    using sg(4) by (simp add: last_conv_nth nth_peers_cohort cohort_def Let_def)
  have i: "length ranges - 1 < length ranges" using sg(4) by simp
  have lo: "out (last ?fws) = last ?outs"
  proof -
    have "out (last ?fws) = map (\<lambda>pr. out (final_writer pr)) (peers ?res) ! (length ranges - 1)"
      unfolding lf using i by simp
    also have "\<dots> = ?outs ! (length ranges - 1)" unfolding cohort_outs(1) [OF cc las] ..
    also have "\<dots> = last ?outs" using on by (simp add: last_conv_nth segment_outs_def)
    finally show ?thesis .
  qed
  have ls: "seek_pos (last ?fws) = int (length (header job @ concat (butlast ?outs)))"
    unfolding lf using cohort_seek_pos [OF cc las i big']
    by (simp add: butlast_conv_take segment_outs_def)
  have oT: "out ?T = last ?outs @ table_bytes ?e (serial_reference job)"
    using table_phase_out(1) [OF cc, of "heap job" ?fws] lo tbl by simp
  have sT: "seek_pos ?T = int (length (header job @ concat (butlast ?outs)))"
    using table_phase_out(2) [OF cc, of "heap job" ?fws] ls by simp
  have split: "concat ?outs = concat (butlast ?outs) @ last ?outs"
    using on by (metis append_butlast_last_id concat_append concat.simps(2) concat.simps(1) append_Nil2)
  have fl: "output_file job ?res = out (serial_reference job)"
  proof -
    have "output_file job ?res
            = pwrite (header job @ concat ?outs) (seek_pos ?T) (out ?T)"
      by (simp add: output_file_def Let_def tw cohort_file [OF cc las big'])
    also have "\<dots> = pwrite ((header job @ concat (butlast ?outs)) @ last ?outs)
                        (int (length (header job @ concat (butlast ?outs))))
                        (last ?outs @ table_bytes ?e (serial_reference job))"
      unfolding sT oT split by simp
    also have "\<dots> = (header job @ concat (butlast ?outs)) @ last ?outs
                        @ table_bytes ?e (serial_reference job)"
      by (rule pwrite_over)
    also have "\<dots> = out (serial_reference job)"
      unfolding sr(1) split by simp
    finally show ?thesis .
  qed
  have bytes: "concat (map (\<lambda>pr. out (final_writer pr)) (peers ?res)) @ table_bytes ?e ?T
               = drop (length (header job)) (out (serial_reference job))"
    unfolding cohort_outs(1) [OF cc las] tbl sr(1) by simp
  have tl: "tell ?T = tell (serial_reference job)"
  proof -
    have "tell ?T = int (length (header job @ concat (butlast ?outs)))
                    + int (length (last ?outs @ table_bytes ?e (serial_reference job)))"
      unfolding tell_def sT oT ..
    also have "\<dots> = int (length (header job @ concat ?outs @ table_bytes ?e (serial_reference job)))"
      unfolding split by simp
    also have "\<dots> = tell (serial_reference job)"
      unfolding tell_def sr(4) sr(1) [symmetric] by simp
    finally show ?thesis .
  qed
  from run tw fl bytes ct sr tl show ?thesis by simp
qed



lemma chunk_coder_example: "chunk_coder example_encoder"
  by (simp add: chunk_coder_def example_encoder_def)

text \<open>
  Five points in chunks of 2 on 2 ranks, and a single point on one rank.
\<close>

theorem serial_equivalence_witness:
  "output_file (example_job example_encoder False 2 2 [1, 2, 3, 4, 5])
      (projr (p_laszip (example_job example_encoder False 2 2 [1, 2, 3, 4, 5])))
     = out (serial_reference (example_job example_encoder False 2 2 [1, 2, 3, 4, 5]))
   \<and> output_file (example_job example_encoder False 2 1 [7])
      (projr (p_laszip (example_job example_encoder False 2 1 [7])))
     = out (serial_reference (example_job example_encoder False 2 1 [7]))"
proof -
  let ?J = "example_job example_encoder False 2 2 [1, 2, 3, 4, 5]"
  let ?I = "example_job example_encoder False 2 1 [7]"
  have j: "\<not> laszip (lasreader ?J)" "0 < chunk_size ?J" "0 < process_count ?J"
    "npoints (lasreader ?J) = int (length (points (lasreader ?J)))"
    "ranges_not_empty (npoints (lasreader ?J)) (chunk_size ?J) (process_count ?J)"
    "chunk_coder (enc ?J)"
    by (simp_all add: example_job_def ranges_not_empty_def chunk_coder_example)
  have "length (chunk_bytes (serial_reference ?J)) = 3"
    by code_simp
  then have js: "length (chunk_bytes (serial_reference ?J)) < 2 ^ 32"
    by simp
  have "length (out (serial_reference ?J)) = 40"
    by code_simp
  then have jb: "int (length (out (serial_reference ?J))) < 2 ^ 63"
    by simp
  have i: "\<not> laszip (lasreader ?I)" "0 < chunk_size ?I" "0 < process_count ?I"
    "npoints (lasreader ?I) = int (length (points (lasreader ?I)))"
    "ranges_not_empty (npoints (lasreader ?I)) (chunk_size ?I) (process_count ?I)"
    "chunk_coder (enc ?I)"
    by (simp_all add: example_job_def ranges_not_empty_def chunk_coder_example)
  have "length (chunk_bytes (serial_reference ?I)) = 1"
    by code_simp
  then have isx: "length (chunk_bytes (serial_reference ?I)) < 2 ^ 32"
    by simp
  have "length (out (serial_reference ?I)) = 22"
    by code_simp
  then have ib: "int (length (out (serial_reference ?I))) < 2 ^ 63"
    by simp
  from serial_equivalence [OF j js jb] obtain res where
    "p_laszip ?J = Inr res" "output_file ?J res = out (serial_reference ?J)" by blast
  then have a: "output_file ?J (projr (p_laszip ?J)) = out (serial_reference ?J)" by simp
  from serial_equivalence [OF i isx ib] obtain res where
    "p_laszip ?I = Inr res" "output_file ?I res = out (serial_reference ?I)" by blast
  then have b: "output_file ?I (projr (p_laszip ?I)) = out (serial_reference ?I)" by simp
  from a b show ?thesis by (rule conjI)
qed

text \<open>No wrap-around in the partitioner: the ends of every range lie between 0 and \<open>N\<close>.\<close>

lemma partition_values_bounded:
  assumes "0 \<le> N" "0 < C" "0 < P" "0 \<le> r" "r < P"
  shows "0 \<le> point_start (las_to_laz_points N C P r)
       \<and> point_start (las_to_laz_points N C P r) \<le> point_end (las_to_laz_points N C P r)
       \<and> point_end (las_to_laz_points N C P r) \<le> N"
proof -
  have a: "range_boundary N C P 0 \<le> range_boundary N C P r"
    using assms by (intro range_boundary_mono) simp_all
  have b: "range_boundary N C P r \<le> range_boundary N C P (r + 1)"
    using assms by (intro range_boundary_mono) simp_all
  have c: "range_boundary N C P (r + 1) \<le> range_boundary N C P P"
    using assms by (intro range_boundary_mono) simp_all
  show ?thesis
    using a b c range_boundary_0 [OF assms(3), of N C] range_boundary_P [of N C P]
    by (simp add: range_boundary_points [OF assms])
qed

text \<open>With a single rank no range is empty as soon as the input has a point.\<close>

lemma ranges_not_empty_single:
  assumes "0 < C" "0 < N"
  shows "ranges_not_empty N C 1"
proof (cases "1 \<le> N div C")
  case True
  then show ?thesis by (simp add: ranges_not_empty_def)
next
  case False
  moreover have "0 \<le> N div C" using assms by (simp add: pos_imp_zdiv_nonneg_iff)
  ultimately have z: "N div C = 0" by simp
  have "N = C * (N div C) + N mod C" by simp
  with z have "N mod C = N" by simp
  with z assms show ?thesis by (simp add: ranges_not_empty_def)
qed

end
